theory Spec2Isabelle
  imports Main "HOL-Library.AList"
begin

section \<open>The background script of the extension (extension/background.js)\<close>

text \<open>
  The script keeps one in-memory \<open>Map\<close> from window UUIDs to window ids and talks to
  three things it does not own: the session store (\<open>browser.sessions\<close>), the windows
  (\<open>browser.windows\<close>) and the native-messaging port to the host. All of them are made
  explicit in one record, which every function of the script takes and returns.

  Every handler of the script is an \<open>async\<close> function. A handler is modelled as one
  step on the state, run to its end: the API calls it issues take effect in the order
  they are issued, and no other handler runs in between. Inside
  \<open>Promise.all(xs.map(async ...))\<close> every callback runs up to its first \<open>await\<close>
  before any continuation runs, so all the reads of such a batch see the state in which
  the batch started; the model keeps that.
\<close>

subsection \<open>Data\<close>

type_synonym UUID = string
type_synonym WindowID = nat
type_synonym Workspace = string

text \<open>
  A value kept in the session store is JSON data. The script stores strings; \<open>null\<close>
  is what the store keeps when it is handed a value that is not JSON data (see
  \<open>workspaceRenamed\<close>). \<open>undefined\<close>, the answer for a key that was never set, is
  \<open>None\<close>.
\<close>

datatype json = Null | Str string

text \<open>A JavaScript object with string values, as the list of its own properties.\<close>

type_synonym object = "(string \<times> string) list"

text \<open>
  The two ways an API call fails. A window id that is not a number is refused by the
  argument check of the API, which throws from the call itself; a number that is not the
  id of an open window makes the promise of the call reject.
\<close>

datatype error = IncorrectArgumentTypes | InvalidWindowID WindowID

datatype completion = Resolves | Rejects error | Throws error

text \<open>
  The writing API calls of the script. The window id is what \<open>windowMap.get\<close> gave,
  \<open>None\<close> being \<open>undefined\<close>.
  \<^item> \<open>WindowsUpdate id t\<close> is \<open>browser.windows.update(id, { titlePreface: t })\<close>;
  \<^item> \<open>SetWorkspace id v\<close> is \<open>browser.sessions.setWindowValue(id, 'workspace', v)\<close>.
\<close>

datatype call = WindowsUpdate "WindowID option" string | SetWorkspace "WindowID option" json

text \<open>
  One property of a message from the host, as \<open>handleHostMessage\<close> tests it: absent, a
  falsy value, or truthy, which by the typedefs of the script is an object from strings
  to strings.
\<close>

datatype field = Absent | Falsy | Payload object

record message =
  windows :: field
  window_move :: field
  workspace_rename :: field

text \<open>
  The state. \<open>windowMap\<close> is the script's global \<open>Map\<close>, as the list of its entries in
  insertion order. \<open>windows_all\<close> is what \<open>browser.windows.getAll()\<close> answers (the ids
  of the open windows). \<open>uuid_value\<close> and \<open>workspace_value\<close> are the session store under
  the two keys the script uses, \<open>'uuid'\<close> and \<open>'workspace'\<close>. \<open>randomUUID\<close> is the
  sequence of values \<open>self.crypto.randomUUID()\<close> is going to return and \<open>drawn\<close> how
  many of them were taken. \<open>posted\<close> collects the messages given to
  \<open>host.postMessage\<close>.
\<close>

record state =
  windowMap :: "(UUID \<times> WindowID) list"
  windows_all :: "WindowID list"
  uuid_value :: "WindowID \<Rightarrow> UUID option"
  workspace_value :: "WindowID \<Rightarrow> json option"
  titlePreface :: "WindowID \<Rightarrow> string"
  randomUUID :: "nat \<Rightarrow> UUID"
  drawn :: nat
  posted :: "(UUID \<times> json) list list"

subsection \<open>JavaScript containers\<close>

text \<open>
  \<open>new Map(entries)\<close> and \<open>Object.fromEntries(entries)\<close> set the entries one after the
  other: a key that is already there keeps its place and takes the new value, a new key
  goes to the end.
\<close>

definition Map_new :: "('k \<times> 'v) list \<Rightarrow> ('k \<times> 'v) list" where
  "Map_new entries = fold (\<lambda>(k, v) m. AList.update k v m) entries []"

definition Map_get :: "('k \<times> 'v) list \<Rightarrow> 'k \<Rightarrow> 'v option" where
  "Map_get m k = map_of m k"

definition Object_fromEntries :: "('k \<times> 'v) list \<Rightarrow> ('k \<times> 'v) list" where
  "Object_fromEntries entries = fold (\<lambda>(k, v) m. AList.update k v m) entries []"

text \<open>
  \<open>payload[key]\<close>. The key is turned into a string first, so \<open>undefined\<close> reads the
  property called \<open>undefined\<close>. A property the object does not have itself is looked up
  in \<open>Object.prototype\<close>, whose members are functions (and the prototype object for
  \<open>__proto__\<close>), none of them \<open>undefined\<close>.
\<close>

fun to_key :: "json option \<Rightarrow> string" where
  "to_key None = ''undefined''"
| "to_key (Some Null) = ''null''"
| "to_key (Some (Str s)) = s"

definition Object_prototype :: "string list" where
  "Object_prototype =
     [''constructor'', ''hasOwnProperty'', ''isPrototypeOf'', ''propertyIsEnumerable'',
      ''toLocaleString'', ''toString'', ''valueOf'', ''__defineGetter__'',
      ''__defineSetter__'', ''__lookupGetter__'', ''__lookupSetter__'', ''__proto__'']"

datatype property = NotFound | Own string | Inherited string

definition get_prop :: "object \<Rightarrow> string \<Rightarrow> property" where
  "get_prop obj k =
     (case map_of obj k of
        Some v \<Rightarrow> Own v
      | None \<Rightarrow> if k \<in> set Object_prototype then Inherited k else NotFound)"

subsection \<open>The browser API\<close>

text \<open>
  The API is the browser's, not the script's. The model keeps what the script relies on:
  \<^item> a call whose window id is \<open>undefined\<close> fails the check of its arguments and throws
    from the call, before anything is sent to the browser;
  \<^item> a call for a window id that is not an open window returns a promise that rejects;
  \<^item> \<open>windows.update\<close> with a \<open>titlePreface\<close> sets the title preface of the window;
  \<^item> \<open>sessions.setWindowValue\<close> stores the value under the key for the window, and
    \<open>sessions.getWindowValue\<close> reads it, \<open>undefined\<close> when nothing is stored.
\<close>

fun api :: "call \<Rightarrow> state \<Rightarrow> completion \<times> state" where
  "api (WindowsUpdate None t) s = (Throws IncorrectArgumentTypes, s)"
| "api (WindowsUpdate (Some wid) t) s =
     (if wid \<in> set (windows_all s)
      then (Resolves, s\<lparr>titlePreface := (titlePreface s)(wid := t)\<rparr>)
      else (Rejects (InvalidWindowID wid), s))"
| "api (SetWorkspace None v) s = (Throws IncorrectArgumentTypes, s)"
| "api (SetWorkspace (Some wid) v) s =
     (if wid \<in> set (windows_all s)
      then (Resolves, s\<lparr>workspace_value := (workspace_value s)(wid := Some v)\<rparr>)
      else (Rejects (InvalidWindowID wid), s))"

text \<open>
  \<open>await Promise.all([...calls])\<close>, the calls being issued while the array is built. A
  call that throws ends the building of the array: the calls before it were issued and
  take effect, the ones after it are never made. A call whose promise rejects does not
  stop the others; \<open>Promise.all\<close> then rejects with the first rejection.
\<close>

fun await_all :: "call list \<Rightarrow> state \<Rightarrow> completion \<times> state" where
  "await_all [] s = (Resolves, s)"
| "await_all (c # cs) s =
     (case api c s of
        (Throws e, s') \<Rightarrow> (Throws e, s')
      | (Rejects e, s') \<Rightarrow>
          (case await_all cs s' of
             (Throws e', s'') \<Rightarrow> (Throws e', s'')
           | (_, s'') \<Rightarrow> (Rejects e, s''))
      | (Resolves, s') \<Rightarrow> await_all cs s')"

text \<open>
  How the promise of an \<open>async\<close> function settles: \<open>None\<close> is fulfilled, \<open>Some e\<close> is
  rejected with \<open>e\<close> (an exception thrown in the body rejects the promise).
\<close>

fun settled :: "completion \<Rightarrow> error option" where
  "settled Resolves = None"
| "settled (Rejects e) = Some e"
| "settled (Throws e) = Some e"

text \<open>\<open>browser.sessions.getWindowValue(id, 'workspace')\<close>: a read, the state is untouched.\<close>

definition getWindowValue_workspace ::
  "WindowID \<Rightarrow> state \<Rightarrow> (error + json option) \<times> state" where
  "getWindowValue_workspace wid s =
     (if wid \<in> set (windows_all s) then (Inr (workspace_value s wid), s)
      else (Inl (InvalidWindowID wid), s))"

subsection \<open>makeWindowMap (lines 16 to 25)\<close>

text \<open>
  The callbacks of \<open>ws.map\<close>. \<open>s0\<close> is the state in which \<open>makeWindowMap\<close> was called:
  all the \<open>getWindowValue(w.id, 'uuid')\<close> are issued before any continuation runs, so
  they read \<open>s0\<close>. The continuations then run in the order of \<open>ws\<close>; one that found no
  uuid takes the next random UUID and stores it. A window that is not open makes its
  \<open>getWindowValue\<close> reject; the other callbacks go on all the same.
  The result is the first rejection if any, the pairs \<open>[uuid, w.id]\<close> and the state.
\<close>

fun makeWindowMap_entries ::
  "state \<Rightarrow> WindowID list \<Rightarrow> state \<Rightarrow> error option \<times> (UUID \<times> WindowID) list \<times> state" where
  "makeWindowMap_entries s0 [] s = (None, [], s)"
| "makeWindowMap_entries s0 (w # ws) s =
     (if w \<notin> set (windows_all s0) then
        (case makeWindowMap_entries s0 ws s of
           (e, es, s') \<Rightarrow> (Some (InvalidWindowID w), es, s'))
      else
        (case uuid_value s0 w of
           Some uuid \<Rightarrow>
             (case makeWindowMap_entries s0 ws s of
                (e, es, s') \<Rightarrow> (e, (uuid, w) # es, s'))
         | None \<Rightarrow>
             (let uuid = randomUUID s (drawn s);
                  s1 = s\<lparr>drawn := Suc (drawn s),
                         uuid_value := (uuid_value s)(w := Some uuid)\<rparr>
              in case makeWindowMap_entries s0 ws s1 of
                   (e, es, s') \<Rightarrow> (e, (uuid, w) # es, s'))))"

definition makeWindowMap ::
  "WindowID list \<Rightarrow> state \<Rightarrow> (error + (UUID \<times> WindowID) list) \<times> state" where
  "makeWindowMap ws s =
     (case makeWindowMap_entries s ws s of
        (Some e, es, s') \<Rightarrow> (Inl e, s')
      | (None, es, s') \<Rightarrow> (Inr (Map_new es), s'))"

subsection \<open>updateWindowMap (lines 31 to 33)\<close>

definition updateWindowMap :: "(UUID \<times> WindowID) list \<Rightarrow> state \<Rightarrow> state" where
  "updateWindowMap wmap s = s\<lparr>windowMap := Map_new (windowMap s @ wmap)\<rparr>"

subsection \<open>makeWindowsMessage (lines 47 to 52)\<close>

text \<open>
  The callbacks of \<open>[...byUUID].map\<close>: every entry reads the workspace of its window,
  \<open>?? null\<close> turning \<open>undefined\<close> (and \<open>null\<close>) into \<open>null\<close>. A window that is not
  open makes its read reject, and with it \<open>makeWindowsMessage\<close>. The message is
  \<open>{ windows: payload }\<close>; the model returns the payload, the object under its only key.
\<close>

fun makeWindowsMessage_entries ::
  "(UUID \<times> WindowID) list \<Rightarrow> state \<Rightarrow> (error + (UUID \<times> json) list) \<times> state" where
  "makeWindowsMessage_entries [] s = (Inr [], s)"
| "makeWindowsMessage_entries ((uuid, wid) # rest) s =
     (case getWindowValue_workspace wid s of
        (Inl e, s') \<Rightarrow>
          (case makeWindowsMessage_entries rest s' of (_, s'') \<Rightarrow> (Inl e, s''))
      | (Inr v, s') \<Rightarrow>
          (case makeWindowsMessage_entries rest s' of
             (Inl e, s'') \<Rightarrow> (Inl e, s'')
           | (Inr es, s'') \<Rightarrow>
               (Inr ((uuid, case v of None \<Rightarrow> Null | Some j \<Rightarrow> j) # es), s'')))"

definition makeWindowsMessage ::
  "(UUID \<times> WindowID) list \<Rightarrow> state \<Rightarrow> (error + (UUID \<times> json) list) \<times> state" where
  "makeWindowsMessage byUUID s =
     (case makeWindowsMessage_entries byUUID s of
        (Inl e, s') \<Rightarrow> (Inl e, s')
      | (Inr es, s') \<Rightarrow> (Inr (Object_fromEntries es), s'))"

subsection \<open>beaconifyWindows, unbeaconifyWindows, windowsMoved (lines 59 to 82)\<close>

text \<open>Each of the three returns the promises of the calls it issues, one per entry.\<close>

definition beaconifyWindows :: "(UUID \<times> WindowID) list \<Rightarrow> call list" where
  "beaconifyWindows byUUID =
     map (\<lambda>(uuid, wid). WindowsUpdate (Some wid) (uuid @ '' | '')) byUUID"

definition unbeaconifyWindows :: "object \<Rightarrow> state \<Rightarrow> call list" where
  "unbeaconifyWindows payload s =
     map (\<lambda>uuid. WindowsUpdate (Map_get (windowMap s) uuid) '''') (map fst payload)"

definition windowsMoved :: "object \<Rightarrow> state \<Rightarrow> call list" where
  "windowsMoved payload s =
     map (\<lambda>(uuid, workspace). SetWorkspace (Map_get (windowMap s) uuid) (Str workspace))
       payload"

subsection \<open>workspaceRenamed (lines 91 to 100)\<close>

text \<open>
  The callback for one window. \<open>oldWorkspace\<close> and \<open>newWorkspace\<close> are assigned without
  a declaration, so they are globals shared by all the callbacks; each is written and
  read again with no \<open>await\<close> in between, so no callback sees the value of another.
  \<open>s0\<close> is the state the reads see. A new value that is a member of
  \<open>Object.prototype\<close> is a function: it is not \<open>undefined\<close>, so it is written, and the
  session store keeps \<open>null\<close> for it.
\<close>

definition workspaceRenamed_window :: "object \<Rightarrow> state \<Rightarrow> WindowID \<Rightarrow> call list" where
  "workspaceRenamed_window payload s0 w =
     (let oldWorkspace = workspace_value s0 w;
          newWorkspace = get_prop payload (to_key oldWorkspace)
      in case newWorkspace of
           NotFound \<Rightarrow> []
         | Own v \<Rightarrow> [SetWorkspace (Some w) (Str v)]
         | Inherited f \<Rightarrow> [SetWorkspace (Some w) Null])"

definition workspaceRenamed :: "object \<Rightarrow> state \<Rightarrow> completion \<times> state" where
  "workspaceRenamed payload s =
     (let ws = windows_all s
      in await_all (concat (map (workspaceRenamed_window payload s) ws)) s)"

subsection \<open>handleHostMessage (lines 118 to 130)\<close>

definition handleHostMessage :: "message \<Rightarrow> state \<Rightarrow> error option \<times> state" where
  "handleHostMessage m s =
     (case windows m of
        Payload p \<Rightarrow>
          (case await_all (unbeaconifyWindows p s @ windowsMoved p s) s of
             (c, s') \<Rightarrow> (settled c, s'))
      | _ \<Rightarrow>
        (case window_move m of
           Payload p \<Rightarrow>
             (case await_all (windowsMoved p s) s of (c, s') \<Rightarrow> (settled c, s'))
         | _ \<Rightarrow>
           (case workspace_rename m of
              Payload p \<Rightarrow>
                (case workspaceRenamed p s of (c, s') \<Rightarrow> (settled c, s'))
            | _ \<Rightarrow> (None, s))))"

subsection \<open>handleWindowCreated and main (lines 138 to 163)\<close>

text \<open>
  Lines 142 to 147 and 157 to 162:
  \<open>await Promise.all([makeWindowsMessage(byUUID), ...beaconifyWindows(byUUID)])\<close> and
  then, only when nothing failed, \<open>host.postMessage(message)\<close>.
\<close>

definition post_windows :: "(UUID \<times> WindowID) list \<Rightarrow> state \<Rightarrow> error option \<times> state" where
  "post_windows byUUID s =
     (case makeWindowsMessage byUUID s of
        (r, s1) \<Rightarrow>
          (case await_all (beaconifyWindows byUUID) s1 of
             (c, s2) \<Rightarrow>
               (case r of
                  Inl e \<Rightarrow> (Some e, s2)
                | Inr msg \<Rightarrow>
                    (case settled c of
                       Some e \<Rightarrow> (Some e, s2)
                     | None \<Rightarrow> (None, s2\<lparr>posted := posted s2 @ [msg]\<rparr>)))))"

definition handleWindowCreated :: "WindowID \<Rightarrow> state \<Rightarrow> error option \<times> state" where
  "handleWindowCreated w s =
     (case makeWindowMap [w] s of
        (Inl e, s1) \<Rightarrow> (Some e, s1)
      | (Inr wmap, s1) \<Rightarrow> post_windows wmap (updateWindowMap wmap s1))"

definition main :: "state \<Rightarrow> error option \<times> state" where
  "main s =
     (let ws = windows_all s
      in case makeWindowMap ws s of
           (Inl e, s1) \<Rightarrow> (Some e, s1)
         | (Inr wmap, s1) \<Rightarrow>
             (let s2 = updateWindowMap wmap s1 in post_windows (windowMap s2) s2))"

text \<open>The three entry points of the script.\<close>

datatype event = Startup | WindowCreated WindowID | HostMessage message

fun handle :: "event \<Rightarrow> state \<Rightarrow> error option \<times> state" where
  "handle Startup s = main s"
| "handle (WindowCreated w) s = handleWindowCreated w s"
| "handle (HostMessage m) s = handleHostMessage m s"

section \<open>Notions used in the statements\<close>

subsection \<open>The three messages of the host (typedefs of lines 102 to 111)\<close>

definition sync_response :: "object \<Rightarrow> message" where
  "sync_response p = \<lparr>windows = Payload p, window_move = Absent, workspace_rename = Absent\<rparr>"

definition move_notification :: "object \<Rightarrow> message" where
  "move_notification p = \<lparr>windows = Absent, window_move = Payload p, workspace_rename = Absent\<rparr>"

definition rename_notification :: "object \<Rightarrow> message" where
  "rename_notification p = \<lparr>windows = Absent, window_move = Absent, workspace_rename = Payload p\<rparr>"

subsection \<open>What a list of calls does\<close>

text \<open>
  The window a call names; the calls of a list that are really issued (those before the
  first one that throws); the state after one call; and the last title and the last
  workspace a list of calls writes for a window, given the open windows.
\<close>

fun call_window :: "call \<Rightarrow> WindowID option" where
  "call_window (WindowsUpdate w t) = w"
| "call_window (SetWorkspace w v) = w"

fun issued :: "call list \<Rightarrow> call list" where
  "issued [] = []"
| "issued (c # cs) = (if call_window c = None then [] else c # issued cs)"

definition effect :: "call \<Rightarrow> state \<Rightarrow> state" where
  "effect c s = snd (api c s)"

fun title_written :: "WindowID list \<Rightarrow> call list \<Rightarrow> WindowID \<Rightarrow> string option" where
  "title_written ws [] = Map.empty"
| "title_written ws (WindowsUpdate (Some wid) t # cs) =
     (if wid \<in> set ws then [wid \<mapsto> t] else Map.empty) ++ title_written ws cs"
| "title_written ws (c # cs) = title_written ws cs"

fun workspace_written :: "WindowID list \<Rightarrow> call list \<Rightarrow> WindowID \<Rightarrow> json option" where
  "workspace_written ws [] = Map.empty"
| "workspace_written ws (SetWorkspace (Some wid) v # cs) =
     (if wid \<in> set ws then [wid \<mapsto> v] else Map.empty) ++ workspace_written ws cs"
| "workspace_written ws (c # cs) = workspace_written ws cs"

text \<open>The entries of a payload that come before its first identity unknown to the window map.\<close>

definition known_prefix :: "object \<Rightarrow> state \<Rightarrow> object" where
  "known_prefix p s = takeWhile (\<lambda>(uuid, workspace). Map_get (windowMap s) uuid \<noteq> None) p"

text \<open>What \<open>workspaceRenamed\<close> leaves for a window whose stored workspace is \<open>old\<close>.\<close>

definition renamed :: "object \<Rightarrow> json option \<Rightarrow> json option" where
  "renamed payload old =
     (case get_prop payload (to_key old) of
        NotFound \<Rightarrow> old
      | Own v \<Rightarrow> Some (Str v)
      | Inherited f \<Rightarrow> Some Null)"

text \<open>
  Every identity of a request has a window in the window map, and the title of that
  window carries a marker: it is not empty, and it is the marker of an identity of that
  window.
\<close>

definition beaconified :: "(UUID \<times> json) list \<Rightarrow> state \<Rightarrow> bool" where
  "beaconified msg s =
     (\<forall>uuid\<in>fst ` set msg.
        case Map_get (windowMap s) uuid of
          None \<Rightarrow> False
        | Some w \<Rightarrow>
            titlePreface s w \<noteq> '''' \<and>
            (\<exists>uuid'\<in>fst ` set (windowMap s).
               Map_get (windowMap s) uuid' = Some w \<and> titlePreface s w = uuid' @ '' | ''))"

subsection \<open>Example states\<close>

text \<open>
  The script starts: two open windows, window 1 restored with the identity \<open>A\<close> and the
  workspace \<open>2\<close> of the last session, window 2 new. The window map is still empty.
\<close>

definition at_startup :: state where
  "at_startup =
     \<lparr>windowMap = [],
      windows_all = [1, 2],
      uuid_value = [1 \<mapsto> ''A''],
      workspace_value = [1 \<mapsto> Str ''2''],
      titlePreface = (\<lambda>w. ''''),
      randomUUID = (\<lambda>n. ''uuid-'' @ replicate n CHR ''x''),
      drawn = 0,
      posted = []\<rparr>"

text \<open>
  Two open windows with the identities \<open>A\<close> and \<open>B\<close>, no workspace stored yet, right
  after the script has sent its first request for both: the markers are set.
\<close>

definition two_windows :: state where
  "two_windows =
     \<lparr>windowMap = [(''A'', 1), (''B'', 2)],
      windows_all = [1, 2],
      uuid_value = [1 \<mapsto> ''A'', 2 \<mapsto> ''B''],
      workspace_value = Map.empty,
      titlePreface = (\<lambda>w. '''')(1 := ''A | '', 2 := ''B | ''),
      randomUUID = (\<lambda>n. ''uuid-'' @ replicate n CHR ''x''),
      drawn = 0,
      posted = [[(''A'', Null), (''B'', Null)]]\<rparr>"

text \<open>
  Three open windows \<open>A\<close>, \<open>B\<close> and \<open>C\<close>: \<open>A\<close> was last seen on workspace \<open>1\<close>,
  \<open>C\<close> on workspace \<open>2\<close>, and nothing is stored for \<open>B\<close>.
\<close>

definition three_windows :: state where
  "three_windows =
     \<lparr>windowMap = [(''A'', 1), (''B'', 2), (''C'', 3)],
      windows_all = [1, 2, 3],
      uuid_value = [1 \<mapsto> ''A'', 2 \<mapsto> ''B'', 3 \<mapsto> ''C''],
      workspace_value = [1 \<mapsto> Str ''1'', 3 \<mapsto> Str ''2''],
      titlePreface = (\<lambda>w. ''''),
      randomUUID = (\<lambda>n. ''uuid-'' @ replicate n CHR ''x''),
      drawn = 0,
      posted = []\<rparr>"

section \<open>Properties\<close>

subsection \<open>Maps and objects built from entries\<close>

lemma fold_update_map_of:
  "map_of (fold (\<lambda>(k, v) m. AList.update k v m) es acc) = map_of acc ++ map_of (rev es)"
proof (induction es arbitrary: acc)
  case Nil
  show ?case by simp
next
  case (Cons e es)
  obtain k v where e: "e = (k, v)" by (cases e)
  have "map_of (fold (\<lambda>(k, v) m. AList.update k v m) (e # es) acc)
      = map_of (AList.update k v acc) ++ map_of (rev es)"
    using Cons [of "AList.update k v acc"] e by simp
  also have "\<dots> = map_of acc ++ map_of (rev (e # es))"
    by (rule ext) (simp add: e AList.update_conv' map_add_def split: option.splits)
  finally show ?case .
qed

lemma fold_update_keys:
  "fst ` set (fold (\<lambda>(k, v) m. AList.update k v m) es acc) = fst ` set acc \<union> fst ` set es"
proof (induction es arbitrary: acc)
  case Nil
  show ?case by simp
next
  case (Cons e es)
  obtain k v where e: "e = (k, v)" by (cases e)
  have "fst ` set (fold (\<lambda>(k, v) m. AList.update k v m) (e # es) acc)
      = fst ` set (AList.update k v acc) \<union> fst ` set es"
    using Cons [of "AList.update k v acc"] e by simp
  also have "\<dots> = fst ` set acc \<union> fst ` set (e # es)"
    by (simp add: AList.dom_update e)
  finally show ?case .
qed

lemma map_of_rev_distinct: "distinct (map fst xs) \<Longrightarrow> map_of (rev xs) = map_of xs"
proof (induction xs)
  case Nil
  show ?case by simp
next
  case (Cons e xs)
  obtain k v where e: "e = (k, v)" by (cases e)
  from Cons.prems e have "map_of xs k = None"
    by (simp add: map_of_eq_None_iff)
  with Cons e show ?case
    by (auto simp: map_add_def fun_eq_iff split: option.splits)
qed

lemma fold_update_distinct:
  "distinct (map fst acc) \<Longrightarrow>
   distinct (map fst (fold (\<lambda>(k, v) m. AList.update k v m) es acc))"
  by (induction es arbitrary: acc) (auto simp: AList.distinct_update)

lemma update_new_key: "k \<notin> fst ` set al \<Longrightarrow> AList.update k v al = al @ [(k, v)]"
  by (induction al) auto

lemma fold_update_fresh:
  "distinct (map fst es) \<Longrightarrow> fst ` set es \<inter> fst ` set acc = {} \<Longrightarrow>
   fold (\<lambda>(k, v) m. AList.update k v m) es acc = acc @ es"
proof (induction es arbitrary: acc)
  case Nil
  show ?case by simp
next
  case (Cons e es)
  obtain k v where e: "e = (k, v)" by (cases e)
  have "AList.update k v acc = acc @ [(k, v)]"
    using Cons.prems e by (intro update_new_key) auto
  moreover have "fold (\<lambda>(k, v) m. AList.update k v m) es (acc @ [(k, v)]) = (acc @ [(k, v)]) @ es"
    using Cons.prems e by (intro Cons.IH) auto
  ultimately show ?case using e by simp
qed

lemma Map_new_distinct [simp]: "distinct (map fst (Map_new es))"
  by (simp add: Map_new_def fold_update_distinct)

lemma Map_new_keys [simp]: "fst ` set (Map_new es) = fst ` set es"
  by (simp add: Map_new_def fold_update_keys)

lemma Map_get_Map_new: "Map_get (Map_new es) = map_of (rev es)"
  by (simp add: Map_get_def Map_new_def fold_update_map_of fun_eq_iff)

lemma Map_new_id: "distinct (map fst es) \<Longrightarrow> Map_new es = es"
  by (simp add: Map_new_def fold_update_fresh)

lemma Object_fromEntries_id: "distinct (map fst es) \<Longrightarrow> Object_fromEntries es = es"
  by (simp add: Object_fromEntries_def fold_update_fresh)

subsection \<open>Merging into the window map\<close>

text \<open>
  Claim C9. \<open>updateWindowMap\<close> replaces the window map by the union of the old map and
  the new mapping: an identity of the new mapping has the window the new mapping gives,
  any other identity has the window it had, and the identities of the result are those
  of the old map and of the new mapping together. Nothing else in the state changes.
\<close>

theorem updateWindowMap_merges:
  assumes "distinct (map fst (windowMap s))" and "distinct (map fst wmap)"
  shows "Map_get (windowMap (updateWindowMap wmap s)) uuid =
           (case Map_get wmap uuid of
              Some w \<Rightarrow> Some w
            | None \<Rightarrow> Map_get (windowMap s) uuid) \<and>
         fst ` set (windowMap (updateWindowMap wmap s)) =
           fst ` set (windowMap s) \<union> fst ` set wmap \<and>
         distinct (map fst (windowMap (updateWindowMap wmap s))) \<and>
         updateWindowMap wmap s = s\<lparr>windowMap := windowMap (updateWindowMap wmap s)\<rparr>"
proof -
  have "map_of (rev (windowMap s)) = map_of (windowMap s)"
    and "map_of (rev wmap) = map_of wmap"
    using assms by (simp_all add: map_of_rev_distinct)
  then have "Map_get (windowMap (updateWindowMap wmap s)) uuid =
      (map_of (windowMap s) ++ map_of wmap) uuid"
    by (simp add: updateWindowMap_def Map_get_Map_new)
  then show ?thesis
    by (auto simp: updateWindowMap_def Map_get_def map_add_def split: option.splits)
qed

theorem updateWindowMap_merges_witness:
  "distinct (map fst (windowMap two_windows)) \<and>
   distinct (map fst [(''B'', 7), (''C'', 3::nat)]) \<and>
   windowMap (updateWindowMap [(''B'', 7), (''C'', 3)] two_windows)
     = [(''A'', 1), (''B'', 7), (''C'', 3)] \<and>
   Map_get (windowMap (updateWindowMap [(''B'', 7), (''C'', 3)] two_windows)) ''B'' = Some 7 \<and>
   Map_get (windowMap (updateWindowMap [(''B'', 7), (''C'', 3)] two_windows)) ''A'' = Some 1"
proof -
  have h1: "distinct (map fst (windowMap two_windows))"
    by (simp add: two_windows_def)
  have h2: "distinct (map fst [(''B'', 7), (''C'', 3::nat)])" by simp
  have m: "windowMap (updateWindowMap [(''B'', 7), (''C'', 3)] two_windows)
      = [(''A'', 1), (''B'', 7), (''C'', 3)]"
    by (simp add: updateWindowMap_def Map_new_def two_windows_def)
  have "Map_get (windowMap (updateWindowMap [(''B'', 7), (''C'', 3)] two_windows)) ''B'' = Some 7"
    using updateWindowMap_merges [OF h1 h2, of "''B''"] by (simp add: Map_get_def)
  moreover have "Map_get (windowMap (updateWindowMap [(''B'', 7), (''C'', 3)] two_windows)) ''A''
      = Some 1"
    using updateWindowMap_merges [OF h1 h2, of "''A''"] by (simp add: Map_get_def two_windows_def)
  ultimately show ?thesis using h1 h2 m by simp
qed

subsection \<open>Giving every window an identity\<close>

lemma makeWindowMap_entries_frame:
  "makeWindowMap_entries s0 ws s = (e, es, s') \<Longrightarrow>
   windowMap s' = windowMap s \<and> windows_all s' = windows_all s \<and>
   workspace_value s' = workspace_value s \<and> titlePreface s' = titlePreface s \<and>
   randomUUID s' = randomUUID s \<and> posted s' = posted s \<and> drawn s \<le> drawn s'"
proof (induction ws arbitrary: s e es s')
  case Nil
  then show ?case by simp
next
  case (Cons w ws)
  show ?case
    using Cons.prems
    by (auto simp: Let_def split: if_splits option.splits prod.splits dest!: Cons.IH)
qed

lemma makeWindowMap_entries_kept:
  "makeWindowMap_entries s0 ws s = (e, es, s') \<Longrightarrow>
   w \<notin> set ws \<or> w \<notin> set (windows_all s0) \<or> uuid_value s0 w \<noteq> None \<Longrightarrow>
   uuid_value s' w = uuid_value s w"
proof (induction ws arbitrary: s e es s')
  case Nil
  then show ?case by simp
next
  case (Cons x ws)
  show ?case
    using Cons.prems
    by (auto simp: Let_def split: if_splits option.splits prod.splits dest!: Cons.IH)
qed

lemma makeWindowMap_entries_drawn:
  "makeWindowMap_entries s0 ws s = (e, es, s') \<Longrightarrow>
   drawn s' = drawn s + length [w\<leftarrow>ws. w \<in> set (windows_all s0) \<and> uuid_value s0 w = None]"
proof (induction ws arbitrary: s e es s')
  case Nil
  then show ?case by simp
next
  case (Cons x ws)
  show ?case
    using Cons.prems
    by (auto simp: Let_def split: if_splits option.splits prod.splits dest!: Cons.IH)
qed

lemma makeWindowMap_entries_error:
  "makeWindowMap_entries s0 ws s = (e, es, s') \<Longrightarrow>
   (e = None) = (set ws \<subseteq> set (windows_all s0))"
proof (induction ws arbitrary: s e es s')
  case Nil
  then show ?case by simp
next
  case (Cons x ws)
  show ?case
    using Cons.prems
    by (auto simp: Let_def split: if_splits option.splits prod.splits dest!: Cons.IH)
qed

lemma makeWindowMap_entries_windows:
  "makeWindowMap_entries s0 ws s = (e, es, s') \<Longrightarrow> set ws \<subseteq> set (windows_all s0) \<Longrightarrow>
   map snd es = ws"
proof (induction ws arbitrary: s e es s')
  case Nil
  then show ?case by simp
next
  case (Cons x ws)
  show ?case
    using Cons.prems
    by (auto simp: Let_def split: if_splits option.splits prod.splits dest!: Cons.IH)
qed

lemma makeWindowMap_entries_ConsE:
  assumes "makeWindowMap_entries s0 (x # ws) s = (e, es, s')"
  obtains
    (closed) e1 where "x \<notin> set (windows_all s0)"
      and "makeWindowMap_entries s0 ws s = (e1, es, s')"
  | (stored) u es1 where "x \<in> set (windows_all s0)" and "uuid_value s0 x = Some u"
      and "es = (u, x) # es1" and "makeWindowMap_entries s0 ws s = (e, es1, s')"
  | (fresh) es1 where "x \<in> set (windows_all s0)" and "uuid_value s0 x = None"
      and "es = (randomUUID s (drawn s), x) # es1"
      and "makeWindowMap_entries s0 ws
             (s\<lparr>drawn := Suc (drawn s),
                uuid_value := (uuid_value s)(x := Some (randomUUID s (drawn s)))\<rparr>)
           = (e, es1, s')"
  using assms by (auto simp: Let_def split: if_splits option.splits prod.splits)

lemma makeWindowMap_entries_generated:
  "makeWindowMap_entries s0 ws s = (e, es, s') \<Longrightarrow> w \<in> set ws \<Longrightarrow>
   w \<in> set (windows_all s0) \<Longrightarrow> uuid_value s0 w = None \<Longrightarrow>
   \<exists>n. drawn s \<le> n \<and> n < drawn s' \<and> uuid_value s' w = Some (randomUUID s n)"
proof (induction ws arbitrary: s e es s')
  case Nil
  then show ?case by simp
next
  case (Cons x ws)
  from Cons.prems(1) show ?case
  proof (cases rule: makeWindowMap_entries_ConsE)
    case (closed e1)
    with Cons.prems have "w \<in> set ws" by auto
    then show ?thesis using Cons.IH [OF closed(2)] Cons.prems by simp
  next
    case (stored u es1)
    with Cons.prems have "w \<in> set ws" by auto
    then show ?thesis using Cons.IH [OF stored(4)] Cons.prems by simp
  next
    case (fresh es1)
    let ?s1 = "s\<lparr>drawn := Suc (drawn s),
                uuid_value := (uuid_value s)(x := Some (randomUUID s (drawn s)))\<rparr>"
    show ?thesis
    proof (cases "w \<in> set ws")
      case True
      then obtain n where "drawn ?s1 \<le> n" "n < drawn s'"
        "uuid_value s' w = Some (randomUUID ?s1 n)"
        using Cons.IH [OF fresh(4)] Cons.prems by blast
      then show ?thesis by (intro exI [of _ n]) simp
    next
      case False
      with Cons.prems have "w = x" by simp
      have "uuid_value s' w = uuid_value ?s1 w"
        using fresh(4) by (rule makeWindowMap_entries_kept) (simp add: False)
      moreover have "drawn ?s1 \<le> drawn s'"
        using makeWindowMap_entries_frame [OF fresh(4)] by simp
      ultimately show ?thesis using \<open>w = x\<close>
        by (intro exI [of _ "drawn s"]) simp
    qed
  qed
qed

lemma makeWindowMap_entries_stored:
  "makeWindowMap_entries s0 ws s = (e, es, s') \<Longrightarrow> distinct ws \<Longrightarrow>
   (\<And>w. uuid_value s0 w \<noteq> None \<Longrightarrow> uuid_value s w = uuid_value s0 w) \<Longrightarrow>
   (u, w) \<in> set es \<Longrightarrow> uuid_value s' w = Some u"
proof (induction ws arbitrary: s e es s')
  case Nil
  then show ?case by simp
next
  case (Cons x ws)
  from Cons.prems(1) show ?case
  proof (cases rule: makeWindowMap_entries_ConsE)
    case (closed e1)
    show ?thesis
      using Cons.IH [OF closed(2)] Cons.prems by simp
  next
    case (stored u0 es1)
    show ?thesis
    proof (cases "(u, w) \<in> set es1")
      case True
      then show ?thesis using Cons.IH [OF stored(4)] Cons.prems by simp
    next
      case False
      with Cons.prems(4) stored(3) have same: "u = u0" "w = x" by auto
      have "uuid_value s' x = uuid_value s x"
        using stored(4) by (rule makeWindowMap_entries_kept) (simp add: stored(2))
      then show ?thesis using same stored(2) Cons.prems(3) [of x] by simp
    qed
  next
    case (fresh es1)
    let ?s1 = "s\<lparr>drawn := Suc (drawn s),
                uuid_value := (uuid_value s)(x := Some (randomUUID s (drawn s)))\<rparr>"
    have inv: "uuid_value ?s1 v = uuid_value s0 v" if "uuid_value s0 v \<noteq> None" for v
      using that fresh(2) Cons.prems(3) [of v] by auto
    show ?thesis
    proof (cases "(u, w) \<in> set es1")
      case True
      then show ?thesis using Cons.IH [OF fresh(4) _ inv] Cons.prems(2) by simp
    next
      case False
      with Cons.prems(4) fresh(3) have same: "u = randomUUID s (drawn s)" "w = x" by auto
      have "uuid_value s' x = uuid_value ?s1 x"
        using fresh(4) by (rule makeWindowMap_entries_kept) (use Cons.prems(2) in simp)
      then show ?thesis using same by simp
    qed
  qed
qed

lemma makeWindowMap_entries_keys:
  "makeWindowMap_entries s0 ws s = (e, es, s') \<Longrightarrow> (u, w) \<in> set es \<Longrightarrow>
   w \<in> set ws \<and>
   (uuid_value s0 w = Some u \<or>
    (\<exists>n. drawn s \<le> n \<and> n < drawn s' \<and> u = randomUUID s n))"
proof (induction ws arbitrary: s e es s')
  case Nil
  then show ?case by simp
next
  case (Cons x ws)
  from Cons.prems(1) show ?case
  proof (cases rule: makeWindowMap_entries_ConsE)
    case (closed e1)
    show ?thesis
      using Cons.IH [OF closed(2)] Cons.prems by simp
  next
    case (stored u0 es1)
    show ?thesis
      using Cons.IH [OF stored(4)] Cons.prems(2) stored(2,3) by auto
  next
    case (fresh es1)
    let ?s1 = "s\<lparr>drawn := Suc (drawn s),
                uuid_value := (uuid_value s)(x := Some (randomUUID s (drawn s)))\<rparr>"
    have le: "drawn ?s1 \<le> drawn s'"
      using makeWindowMap_entries_frame [OF fresh(4)] by simp
    show ?thesis
    proof (cases "(u, w) \<in> set es1")
      case True
      from Cons.IH [OF fresh(4) True] show ?thesis
        by (auto intro: Suc_leD)
    next
      case False
      with Cons.prems(2) fresh(3) have "u = randomUUID s (drawn s)" "w = x" by auto
      then show ?thesis using le by auto
    qed
  qed
qed

lemma makeWindowMap_entries_distinct:
  "makeWindowMap_entries s0 ws s = (e, es, s') \<Longrightarrow> distinct ws \<Longrightarrow>
   inj_on (uuid_value s0) (set ws \<inter> dom (uuid_value s0)) \<Longrightarrow>
   inj_on (randomUUID s) {drawn s..} \<Longrightarrow>
   randomUUID s ` {drawn s..} \<inter> ran (uuid_value s0) = {} \<Longrightarrow>
   distinct (map fst es)"
proof (induction ws arbitrary: s e es s')
  case Nil
  then show ?case by simp
next
  case (Cons x ws)
  have inj: "inj_on (uuid_value s0) (set ws \<inter> dom (uuid_value s0))"
    using Cons.prems(3) by (rule inj_on_subset) auto
  from Cons.prems(1) show ?case
  proof (cases rule: makeWindowMap_entries_ConsE)
    case (closed e1)
    show ?thesis
      using Cons.IH [OF closed(2) _ inj Cons.prems(4,5)] Cons.prems(2) by simp
  next
    case (stored u0 es1)
    have tail: "distinct (map fst es1)"
      using Cons.IH [OF stored(4) _ inj Cons.prems(4,5)] Cons.prems(2) by simp
    have "u0 \<noteq> u" if "(u, w) \<in> set es1" for u w
    proof
      assume "u0 = u"
      from makeWindowMap_entries_keys [OF stored(4) that]
      have w: "w \<in> set ws"
        and u: "uuid_value s0 w = Some u \<or> (\<exists>n. drawn s \<le> n \<and> n < drawn s' \<and> u = randomUUID s n)"
        by simp_all
      from u show False
      proof
        assume "uuid_value s0 w = Some u"
        then have "uuid_value s0 w = uuid_value s0 x" using stored(2) \<open>u0 = u\<close> by simp
        moreover have "w \<in> set (x # ws) \<inter> dom (uuid_value s0)"
          "x \<in> set (x # ws) \<inter> dom (uuid_value s0)"
          using w stored(2) \<open>uuid_value s0 w = Some u\<close> by auto
        ultimately have "w = x" by (rule inj_onD [OF Cons.prems(3)])
        then show False using w Cons.prems(2) by simp
      next
        assume "\<exists>n. drawn s \<le> n \<and> n < drawn s' \<and> u = randomUUID s n"
        then have "u \<in> randomUUID s ` {drawn s..}" by auto
        moreover have "u \<in> ran (uuid_value s0)"
          using stored(2) \<open>u0 = u\<close> by (auto simp: ran_def)
        ultimately show False using Cons.prems(5) by auto
      qed
    qed
    then show ?thesis using tail stored(3) by force
  next
    case (fresh es1)
    let ?s1 = "s\<lparr>drawn := Suc (drawn s),
                uuid_value := (uuid_value s)(x := Some (randomUUID s (drawn s)))\<rparr>"
    have "inj_on (randomUUID s) {Suc (drawn s)..}"
      using Cons.prems(4) by (rule inj_on_subset) auto
    then have inj1: "inj_on (randomUUID ?s1) {drawn ?s1..}"
      by simp
    have "randomUUID s ` {Suc (drawn s)..} \<subseteq> randomUUID s ` {drawn s..}"
      by (intro image_mono) auto
    then have fresh1: "randomUUID ?s1 ` {drawn ?s1..} \<inter> ran (uuid_value s0) = {}"
      using Cons.prems(5) by auto
    have tail: "distinct (map fst es1)"
      using Cons.IH [OF fresh(4) _ inj inj1 fresh1] Cons.prems(2) by simp
    have "randomUUID s (drawn s) \<noteq> u" if "(u, w) \<in> set es1" for u w
    proof
      assume eq: "randomUUID s (drawn s) = u"
      from makeWindowMap_entries_keys [OF fresh(4) that]
      have "uuid_value s0 w = Some u \<or>
          (\<exists>n. drawn ?s1 \<le> n \<and> n < drawn s' \<and> u = randomUUID ?s1 n)"
        by simp
      then show False
      proof
        assume "uuid_value s0 w = Some u"
        then have "u \<in> ran (uuid_value s0)" by (auto simp: ran_def)
        moreover have "u \<in> randomUUID s ` {drawn s..}" using eq by auto
        ultimately show False using Cons.prems(5) by auto
      next
        assume "\<exists>n. drawn ?s1 \<le> n \<and> n < drawn s' \<and> u = randomUUID ?s1 n"
        then obtain n where n: "Suc (drawn s) \<le> n" "u = randomUUID s n" by auto
        then have "randomUUID s (drawn s) = randomUUID s n" using eq by simp
        then have "drawn s = n" using Cons.prems(4) n(1) by (auto dest!: inj_onD)
        then show False using n(1) by simp
      qed
    qed
    then show ?thesis using tail fresh(3) by force
  qed
qed

text \<open>
  Claim C4. The windows given to \<open>makeWindowMap\<close> are open and different from one
  another, and UUIDs are unique: different windows have different stored identities,
  and the random UUIDs still to come differ from one another and from every stored
  identity. Then \<open>makeWindowMap\<close> is fulfilled with a map that has one entry per window of
  the list, in the order of the list, under different identities, each entry giving the
  identity now stored for its window. A window that had a stored identity keeps it; a
  window outside the list is not touched; a window of the list that had none has one of
  the random UUIDs drawn by this call; and as many UUIDs are drawn as the list has
  windows without an identity.
\<close>

theorem makeWindowMap_identities:
  assumes "distinct ws" and "set ws \<subseteq> set (windows_all s)"
    and "inj_on (uuid_value s) (set ws \<inter> dom (uuid_value s))"
    and "inj_on (randomUUID s) {drawn s..}"
    and "randomUUID s ` {drawn s..} \<inter> ran (uuid_value s) = {}"
  shows "\<exists>wmap s'. makeWindowMap ws s = (Inr wmap, s') \<and>
           map snd wmap = ws \<and> distinct (map fst wmap) \<and>
           (\<forall>(uuid, w)\<in>set wmap. uuid_value s' w = Some uuid) \<and>
           (\<forall>w. uuid_value s w \<noteq> None \<longrightarrow> uuid_value s' w = uuid_value s w) \<and>
           (\<forall>w. w \<notin> set ws \<longrightarrow> uuid_value s' w = uuid_value s w) \<and>
           (\<forall>w\<in>set ws. uuid_value s w = None \<longrightarrow>
              (\<exists>n. drawn s \<le> n \<and> n < drawn s' \<and> uuid_value s' w = Some (randomUUID s n))) \<and>
           drawn s' = drawn s + length [w\<leftarrow>ws. uuid_value s w = None]"
proof -
  obtain e es s' where r: "makeWindowMap_entries s ws s = (e, es, s')"
    by (cases "makeWindowMap_entries s ws s") auto
  have "e = None"
    using makeWindowMap_entries_error [OF r] assms(2) by simp
  moreover have d: "distinct (map fst es)"
    using r assms(1,3,4,5) by (rule makeWindowMap_entries_distinct)
  ultimately have result: "makeWindowMap ws s = (Inr es, s')"
    by (simp add: makeWindowMap_def r Map_new_id)
  have "map snd es = ws"
    using r assms(2) by (rule makeWindowMap_entries_windows)
  moreover have "\<forall>(uuid, w)\<in>set es. uuid_value s' w = Some uuid"
    using makeWindowMap_entries_stored [OF r assms(1)] by auto
  moreover have "\<forall>w. uuid_value s w \<noteq> None \<longrightarrow> uuid_value s' w = uuid_value s w"
    using makeWindowMap_entries_kept [OF r] by simp
  moreover have "\<forall>w. w \<notin> set ws \<longrightarrow> uuid_value s' w = uuid_value s w"
    using makeWindowMap_entries_kept [OF r] by simp
  moreover have "\<forall>w\<in>set ws. uuid_value s w = None \<longrightarrow>
      (\<exists>n. drawn s \<le> n \<and> n < drawn s' \<and> uuid_value s' w = Some (randomUUID s n))"
    using makeWindowMap_entries_generated [OF r] assms(2) by auto
  moreover have "[w\<leftarrow>ws. w \<in> set (windows_all s) \<and> uuid_value s w = None]
      = [w\<leftarrow>ws. uuid_value s w = None]"
    using assms(2) by (intro filter_cong) auto
  then have "drawn s' = drawn s + length [w\<leftarrow>ws. uuid_value s w = None]"
    using makeWindowMap_entries_drawn [OF r] by simp
  ultimately show ?thesis using result d by blast
qed

theorem makeWindowMap_identities_witness:
  "distinct [1, 2::nat] \<and> set [1, 2] \<subseteq> set (windows_all at_startup) \<and>
   inj_on (uuid_value at_startup) (set [1, 2] \<inter> dom (uuid_value at_startup)) \<and>
   inj_on (randomUUID at_startup) {drawn at_startup..} \<and>
   randomUUID at_startup ` {drawn at_startup..} \<inter> ran (uuid_value at_startup) = {} \<and>
   fst (makeWindowMap [1, 2] at_startup) = Inr [(''A'', 1), (''uuid-'', 2)] \<and>
   uuid_value (snd (makeWindowMap [1, 2] at_startup)) 1 = Some ''A'' \<and>
   uuid_value (snd (makeWindowMap [1, 2] at_startup)) 2 = Some ''uuid-'' \<and>
   drawn (snd (makeWindowMap [1, 2] at_startup)) = 1"
proof -
  have h1: "distinct [1, 2::nat]" by simp
  have h2: "set [1, 2] \<subseteq> set (windows_all at_startup)"
    by (simp add: at_startup_def)
  have h3: "inj_on (uuid_value at_startup) (set [1, 2] \<inter> dom (uuid_value at_startup))"
    by (simp add: at_startup_def inj_on_def)
  have h4: "inj_on (randomUUID at_startup) {drawn at_startup..}"
    by (simp add: at_startup_def inj_on_def)
  have h5: "randomUUID at_startup ` {drawn at_startup..} \<inter> ran (uuid_value at_startup) = {}"
    by (auto simp: at_startup_def)
  have run: "fst (makeWindowMap [1, 2] at_startup) = Inr [(''A'', 1), (''uuid-'', 2)]"
    "uuid_value (snd (makeWindowMap [1, 2] at_startup)) 1 = Some ''A''"
    "uuid_value (snd (makeWindowMap [1, 2] at_startup)) 2 = Some ''uuid-''"
    by (simp_all add: makeWindowMap_def Map_new_def at_startup_def Let_def)
  from makeWindowMap_identities [OF h1 h2 h3 h4 h5]
  obtain wmap s' where "makeWindowMap [1, 2] at_startup = (Inr wmap, s')"
    and "drawn s' = drawn at_startup + length [w\<leftarrow>[1, 2]. uuid_value at_startup w = None]"
    by blast
  then have "drawn (snd (makeWindowMap [1, 2] at_startup)) = 1"
    by (simp add: at_startup_def)
  with h1 h2 h3 h4 h5 run show ?thesis by simp
qed

subsection \<open>The sync request\<close>

lemma makeWindowsMessage_entries_Cons:
  "makeWindowsMessage_entries ((uuid, wid) # rest) s =
     (let (r, s') = makeWindowsMessage_entries rest s
      in if wid \<in> set (windows_all s)
         then (case r of
                 Inl e \<Rightarrow> (Inl e, s')
               | Inr es \<Rightarrow>
                   (Inr ((uuid, case workspace_value s wid of None \<Rightarrow> Null | Some j \<Rightarrow> j) # es),
                    s'))
         else (Inl (InvalidWindowID wid), s'))"
  by (simp add: getWindowValue_workspace_def split: prod.splits sum.splits)

lemma makeWindowsMessage_entries_state [simp]: "snd (makeWindowsMessage_entries byUUID s) = s"
proof (induction byUUID)
  case Nil
  show ?case by simp
next
  case (Cons e rest)
  obtain uuid wid where e: "e = (uuid, wid)" by (cases e)
  obtain r where r: "makeWindowsMessage_entries rest s = (r, s)"
    using Cons by (cases "makeWindowsMessage_entries rest s") simp
  show ?case
    unfolding e makeWindowsMessage_entries_Cons by (simp add: r split: sum.splits)
qed

lemma makeWindowsMessage_entries_open:
  "snd ` set byUUID \<subseteq> set (windows_all s) \<Longrightarrow>
   fst (makeWindowsMessage_entries byUUID s) =
     Inr (map (\<lambda>(uuid, wid).
            (uuid, case workspace_value s wid of None \<Rightarrow> Null | Some j \<Rightarrow> j)) byUUID)"
proof (induction byUUID)
  case Nil
  show ?case by simp
next
  case (Cons e rest)
  obtain uuid wid where e: "e = (uuid, wid)" by (cases e)
  let ?es = "map (\<lambda>(uuid, wid).
            (uuid, case workspace_value s wid of None \<Rightarrow> Null | Some j \<Rightarrow> j)) rest"
  have "fst (makeWindowsMessage_entries rest s) = Inr ?es"
    using Cons by simp
  then have r: "makeWindowsMessage_entries rest s = (Inr ?es, s)"
    using makeWindowsMessage_entries_state [of rest s]
    by (cases "makeWindowsMessage_entries rest s") simp
  have "wid \<in> set (windows_all s)" using Cons.prems e by simp
  then show ?case
    unfolding e makeWindowsMessage_entries_Cons by (simp add: r)
qed

lemma makeWindowsMessage_entries_closed:
  "\<not> snd ` set byUUID \<subseteq> set (windows_all s) \<Longrightarrow>
   \<exists>e. fst (makeWindowsMessage_entries byUUID s) = Inl e"
proof (induction byUUID)
  case Nil
  then show ?case by simp
next
  case (Cons e rest)
  obtain uuid wid where e: "e = (uuid, wid)" by (cases e)
  obtain r where r: "makeWindowsMessage_entries rest s = (r, s)"
    using makeWindowsMessage_entries_state [of rest s]
    by (cases "makeWindowsMessage_entries rest s") simp
  show ?case
  proof (cases "wid \<in> set (windows_all s)")
    case True
    with Cons.prems e have "\<not> snd ` set rest \<subseteq> set (windows_all s)" by simp
    then obtain x where "r = Inl x" using Cons.IH r by auto
    then show ?thesis
      unfolding e makeWindowsMessage_entries_Cons using True by (simp add: r)
  next
    case False
    then show ?thesis
      unfolding e makeWindowsMessage_entries_Cons by (simp add: r)
  qed
qed

lemma makeWindowsMessage_state [simp]: "snd (makeWindowsMessage byUUID s) = s"
  using makeWindowsMessage_entries_state [of byUUID s]
  by (cases "makeWindowsMessage_entries byUUID s")
    (simp add: makeWindowsMessage_def split: sum.splits)

lemma makeWindowsMessage_open:
  assumes "distinct (map fst byUUID)" and "snd ` set byUUID \<subseteq> set (windows_all s)"
  shows "fst (makeWindowsMessage byUUID s) =
     Inr (map (\<lambda>(uuid, wid).
            (uuid, case workspace_value s wid of None \<Rightarrow> Null | Some j \<Rightarrow> j)) byUUID)"
proof -
  let ?es = "map (\<lambda>(uuid, wid).
            (uuid, case workspace_value s wid of None \<Rightarrow> Null | Some j \<Rightarrow> j)) byUUID"
  have "map fst ?es = map fst byUUID" by (induction byUUID) auto
  then have "distinct (map fst ?es)" using assms(1) by (simp only:)
  then have "Object_fromEntries ?es = ?es"
    by (rule Object_fromEntries_id)
  then show ?thesis
    using makeWindowsMessage_entries_open [OF assms(2)]
    by (cases "makeWindowsMessage_entries byUUID s") (simp add: makeWindowsMessage_def)
qed

lemma makeWindowsMessage_closed:
  "\<not> snd ` set byUUID \<subseteq> set (windows_all s) \<Longrightarrow> \<exists>e. fst (makeWindowsMessage byUUID s) = Inl e"
  using makeWindowsMessage_entries_closed [of byUUID s]
  by (cases "makeWindowsMessage_entries byUUID s") (auto simp: makeWindowsMessage_def)

text \<open>
  Claim C5. For a mapping with distinct identities whose windows are open,
  \<open>makeWindowsMessage\<close> returns the object placed under the key \<open>windows\<close>: one entry
  per identity of the mapping, in the order of the mapping, whose value is the stored
  \<open>workspace\<close> of the window, or \<open>null\<close> when nothing is stored. The state it returns is
  the state it was given: session store, titles and window map are untouched.
\<close>

theorem makeWindowsMessage_payload:
  assumes "distinct (map fst byUUID)" and "snd ` set byUUID \<subseteq> set (windows_all s)"
  shows "makeWindowsMessage byUUID s =
     (Inr (map (\<lambda>(uuid, wid).
              (uuid, case workspace_value s wid of None \<Rightarrow> Null | Some j \<Rightarrow> j)) byUUID),
      s)"
  using makeWindowsMessage_open [OF assms] makeWindowsMessage_state [of byUUID s]
  by (cases "makeWindowsMessage byUUID s") simp

theorem makeWindowsMessage_payload_witness:
  "distinct (map fst (windowMap three_windows)) \<and>
   snd ` set (windowMap three_windows) \<subseteq> set (windows_all three_windows) \<and>
   makeWindowsMessage (windowMap three_windows) three_windows =
     (Inr [(''A'', Str ''1''), (''B'', Null), (''C'', Str ''2'')], three_windows)"
proof -
  have h1: "distinct (map fst (windowMap three_windows))"
    by (simp add: three_windows_def)
  have h2: "snd ` set (windowMap three_windows) \<subseteq> set (windows_all three_windows)"
    by (simp add: three_windows_def)
  have "map (\<lambda>(uuid, wid).
          (uuid, case workspace_value three_windows wid of None \<Rightarrow> Null | Some j \<Rightarrow> j))
          (windowMap three_windows)
        = [(''A'', Str ''1''), (''B'', Null), (''C'', Str ''2'')]"
    by (simp add: three_windows_def)
  then show ?thesis
    using h1 h2 makeWindowsMessage_payload [OF h1 h2] by simp
qed

subsection \<open>Lists of calls\<close>

lemma api_frame:
  "windows_all (snd (api c s)) = windows_all s"
  "windowMap (snd (api c s)) = windowMap s"
  "uuid_value (snd (api c s)) = uuid_value s"
  "randomUUID (snd (api c s)) = randomUUID s"
  "drawn (snd (api c s)) = drawn s"
  "posted (snd (api c s)) = posted s"
  by (cases c; cases "call_window c"; simp)+

lemma effect_frame [simp]:
  "windows_all (effect c s) = windows_all s"
  "windowMap (effect c s) = windowMap s"
  "uuid_value (effect c s) = uuid_value s"
  "randomUUID (effect c s) = randomUUID s"
  "drawn (effect c s) = drawn s"
  "posted (effect c s) = posted s"
  by (simp_all add: effect_def api_frame)

lemma fold_effect_frame [simp]:
  "windows_all (fold effect cs s) = windows_all s"
  "windowMap (fold effect cs s) = windowMap s"
  "uuid_value (fold effect cs s) = uuid_value s"
  "randomUUID (fold effect cs s) = randomUUID s"
  "drawn (fold effect cs s) = drawn s"
  "posted (fold effect cs s) = posted s"
  by (induction cs arbitrary: s; simp)+

lemma await_all_state: "snd (await_all cs s) = fold effect (issued cs) s"
proof (induction cs arbitrary: s)
  case Nil
  show ?case by simp
next
  case (Cons c cs)
  show ?case
  proof (cases c)
    case (WindowsUpdate w t)
    then show ?thesis using Cons [of "effect c s"]
      by (cases w) (auto simp: effect_def split: prod.splits completion.splits)
  next
    case (SetWorkspace w v)
    then show ?thesis using Cons [of "effect c s"]
      by (cases w) (auto simp: effect_def split: prod.splits completion.splits)
  qed
qed

lemma title_fold:
  "titlePreface (fold effect cs s) w =
     (case title_written (windows_all s) cs w of None \<Rightarrow> titlePreface s w | Some t \<Rightarrow> t)"
proof (induction cs arbitrary: s)
  case Nil
  show ?case by simp
next
  case (Cons c cs)
  show ?case
  proof (cases c)
    case (WindowsUpdate x t)
    then show ?thesis using Cons [of "effect c s"]
      by (cases x) (auto simp: effect_def map_add_def split: option.splits)
  next
    case (SetWorkspace x v)
    then show ?thesis using Cons [of "effect c s"]
      by (cases x) (auto simp: effect_def map_add_def split: option.splits)
  qed
qed

lemma workspace_fold:
  "workspace_value (fold effect cs s) w =
     (case workspace_written (windows_all s) cs w of None \<Rightarrow> workspace_value s w | Some v \<Rightarrow> Some v)"
proof (induction cs arbitrary: s)
  case Nil
  show ?case by simp
next
  case (Cons c cs)
  show ?case
  proof (cases c)
    case (WindowsUpdate x t)
    then show ?thesis using Cons [of "effect c s"]
      by (cases x) (auto simp: effect_def map_add_def split: option.splits)
  next
    case (SetWorkspace x v)
    then show ?thesis using Cons [of "effect c s"]
      by (cases x) (auto simp: effect_def map_add_def split: option.splits)
  qed
qed

lemma issued_takeWhile: "issued cs = takeWhile (\<lambda>c. call_window c \<noteq> None) cs"
  by (induction cs) auto

lemma await_all_windows_all [simp]: "windows_all (snd (await_all cs s)) = windows_all s"
  by (simp add: await_all_state)

lemma await_all_throws:
  "\<exists>c\<in>set cs. call_window c = None \<Longrightarrow> fst (await_all cs s) = Throws IncorrectArgumentTypes"
proof (induction cs arbitrary: s)
  case Nil
  then show ?case by simp
next
  case (Cons c cs)
  show ?case
  proof (cases "call_window c")
    case None
    then show ?thesis by (cases c) auto
  next
    case (Some w)
    with Cons.prems have "\<exists>c\<in>set cs. call_window c = None" by auto
    then have "fst (await_all cs s') = Throws IncorrectArgumentTypes" for s'
      by (rule Cons.IH)
    then have tail: "fst (await_all cs s') = Throws IncorrectArgumentTypes" for s' .
    obtain s1 where a1: "await_all cs s = (Throws IncorrectArgumentTypes, s1)"
      using tail [of s] by (cases "await_all cs s") auto
    obtain s2 where a2: "await_all cs (effect c s) = (Throws IncorrectArgumentTypes, s2)"
      using tail [of "effect c s"] by (cases "await_all cs (effect c s)") auto
    show ?thesis using Some a1 a2
      by (cases c) (auto simp: effect_def)
  qed
qed

lemma await_all_resolves:
  "\<forall>c\<in>set cs. \<exists>w. call_window c = Some w \<and> w \<in> set (windows_all s) \<Longrightarrow>
   fst (await_all cs s) = Resolves"
proof (induction cs arbitrary: s)
  case Nil
  then show ?case by simp
next
  case (Cons c cs)
  have "fst (await_all cs (effect c s)) = Resolves"
    using Cons.prems by (intro Cons.IH) simp
  then show ?case using Cons.prems
    by (cases c) (auto simp: effect_def)
qed

lemma title_written_append:
  "title_written ws (xs @ ys) = title_written ws xs ++ title_written ws ys"
  by (induction ws xs rule: title_written.induct) simp_all

lemma workspace_written_append:
  "workspace_written ws (xs @ ys) = workspace_written ws xs ++ workspace_written ws ys"
  by (induction ws xs rule: workspace_written.induct) simp_all

lemma title_written_windowsMoved [simp]: "title_written ws (windowsMoved p s) = Map.empty"
  by (induction p) (auto simp: windowsMoved_def)

lemma workspace_written_unbeaconifyWindows [simp]:
  "workspace_written ws (unbeaconifyWindows p s) = Map.empty"
  by (induction p) (auto simp: unbeaconifyWindows_def)

lemma title_written_unbeaconifyWindows:
  "title_written ws (unbeaconifyWindows p s) w =
     (if w \<in> set ws \<and> (\<exists>uuid\<in>fst ` set p. Map_get (windowMap s) uuid = Some w)
      then Some '''' else None)"
proof (induction p)
  case Nil
  show ?case by (simp add: unbeaconifyWindows_def)
next
  case (Cons e p)
  show ?case
  proof (cases "Map_get (windowMap s) (fst e)")
    case None
    then show ?thesis using Cons by (auto simp: unbeaconifyWindows_def)
  next
    case (Some x)
    then show ?thesis using Cons
      by (auto simp: unbeaconifyWindows_def map_add_def split: option.splits)
  qed
qed

lemma workspace_written_windowsMoved_None:
  "\<forall>uuid\<in>fst ` set p. Map_get (windowMap s) uuid \<noteq> Some w \<Longrightarrow>
   workspace_written ws (windowsMoved p s) w = None"
proof (induction p)
  case Nil
  show ?case by (simp add: windowsMoved_def)
next
  case (Cons e p)
  obtain uuid v where e: "e = (uuid, v)" by (cases e)
  from Cons have IH: "workspace_written ws (windowsMoved p s) w = None" by simp
  from Cons.prems e have ne: "Map_get (windowMap s) uuid \<noteq> Some w" by simp
  show ?case using IH ne e
    by (cases "Map_get (windowMap s) uuid") (auto simp: windowsMoved_def map_add_def)
qed

lemma workspace_written_windowsMoved:
  assumes "distinct (map fst p)"
    and "inj_on (Map_get (windowMap s)) (fst ` set p)"
    and "(uuid, v) \<in> set p"
    and "Map_get (windowMap s) uuid = Some w"
    and "w \<in> set ws"
  shows "workspace_written ws (windowsMoved p s) w = Some (Str v)"
  using assms
proof (induction p)
  case Nil
  then show ?case by simp
next
  case (Cons e p)
  obtain uuid' v' where e: "e = (uuid', v')" by (cases e)
  have split: "windowsMoved (e # p) s =
      SetWorkspace (Map_get (windowMap s) uuid') (Str v') # windowsMoved p s"
    by (simp add: windowsMoved_def e)
  show ?case
  proof (cases "(uuid, v) \<in> set p")
    case True
    have "workspace_written ws (windowsMoved p s) w = Some (Str v)"
      using Cons.prems True by (intro Cons.IH) (auto simp: inj_on_def)
    then show ?thesis unfolding split
      by (cases "Map_get (windowMap s) uuid'") (simp_all add: map_add_def)
  next
    case False
    with Cons.prems e have same: "uuid' = uuid" "v' = v" by auto
    have "\<forall>u\<in>fst ` set p. Map_get (windowMap s) u \<noteq> Some w"
    proof
      fix u assume u: "u \<in> fst ` set p"
      with Cons.prems(1) e same have "u \<noteq> uuid" by auto
      moreover have "u \<in> fst ` set (e # p)" "uuid \<in> fst ` set (e # p)"
        using u e same by auto
      ultimately have "Map_get (windowMap s) u \<noteq> Map_get (windowMap s) uuid"
        using Cons.prems(2) by (auto simp: inj_on_def)
      then show "Map_get (windowMap s) u \<noteq> Some w" using Cons.prems(4) by simp
    qed
    then have "workspace_written ws (windowsMoved p s) w = None"
      by (rule workspace_written_windowsMoved_None)
    then show ?thesis unfolding split using same Cons.prems(4,5)
      by (simp add: map_add_def)
  qed
qed

lemma handleHostMessage_windows_state:
  "windows m = Payload p \<Longrightarrow>
   snd (handleHostMessage m s) =
     fold effect (issued (unbeaconifyWindows p s @ windowsMoved p s)) s"
  by (simp add: handleHostMessage_def await_all_state [symmetric] split: prod.splits)

lemma handleHostMessage_windows_result:
  "windows m = Payload p \<Longrightarrow>
   fst (handleHostMessage m s) =
     settled (fst (await_all (unbeaconifyWindows p s @ windowsMoved p s) s))"
  by (simp add: handleHostMessage_def split: prod.splits)

lemma calls_known:
  assumes "\<forall>uuid\<in>fst ` set p. \<exists>w. Map_get (windowMap s) uuid = Some w \<and> w \<in> set ws"
  shows "\<forall>c\<in>set (unbeaconifyWindows p s @ windowsMoved p s).
           \<exists>w. call_window c = Some w \<and> w \<in> set ws"
  using assms by (fastforce simp: unbeaconifyWindows_def windowsMoved_def)

lemma issued_all: "\<forall>c\<in>set cs. call_window c \<noteq> None \<Longrightarrow> issued cs = cs"
  by (induction cs) auto

subsection \<open>Applying a sync response\<close>

text \<open>
  Claim C1. A message with a \<open>windows\<close> payload in which every identity is the identity
  of an open window of the window map (different identities naming different windows):
  \<open>handleHostMessage\<close> is fulfilled, and for every identity of the payload the
  \<open>titlePreface\<close> of its window is the empty string afterwards and the stored
  \<open>workspace\<close> of its window is the placement the payload gives.
\<close>

theorem sync_response_applied:
  assumes "windows m = Payload p"
    and "distinct (map fst p)"
    and "\<forall>uuid\<in>fst ` set p. \<exists>w. Map_get (windowMap s) uuid = Some w \<and> w \<in> set (windows_all s)"
    and "inj_on (Map_get (windowMap s)) (fst ` set p)"
  shows "fst (handleHostMessage m s) = None \<and>
         (\<forall>(uuid, workspace)\<in>set p. \<forall>w. Map_get (windowMap s) uuid = Some w \<longrightarrow>
            titlePreface (snd (handleHostMessage m s)) w = '''' \<and>
            workspace_value (snd (handleHostMessage m s)) w = Some (Str workspace))"
proof -
  let ?cs = "unbeaconifyWindows p s @ windowsMoved p s"
  have known: "\<forall>c\<in>set ?cs. \<exists>w. call_window c = Some w \<and> w \<in> set (windows_all s)"
    using assms(3) by (rule calls_known)
  then have "fst (await_all ?cs s) = Resolves"
    by (rule await_all_resolves)
  then have result: "fst (handleHostMessage m s) = None"
    by (simp add: handleHostMessage_windows_result [OF assms(1)])
  have "issued ?cs = ?cs"
    using known by (intro issued_all) auto
  then have state: "snd (handleHostMessage m s) = fold effect ?cs s"
    by (simp add: handleHostMessage_windows_state [OF assms(1)])
  have "titlePreface (fold effect ?cs s) w = '''' \<and>
        workspace_value (fold effect ?cs s) w = Some (Str workspace)"
    if e: "(uuid, workspace) \<in> set p" and w: "Map_get (windowMap s) uuid = Some w"
    for uuid workspace w
  proof -
    from e assms(3) w have "w \<in> set (windows_all s)" by force
    moreover from e have "uuid \<in> fst ` set p" by force
    ultimately have "title_written (windows_all s) (unbeaconifyWindows p s) w = Some ''''"
      using w by (auto simp: title_written_unbeaconifyWindows)
    then have t: "titlePreface (fold effect ?cs s) w = ''''"
      by (simp add: title_fold title_written_append)
    have "workspace_written (windows_all s) (windowsMoved p s) w = Some (Str workspace)"
      using assms(2,4) e w \<open>w \<in> set (windows_all s)\<close> by (rule workspace_written_windowsMoved)
    then have "workspace_value (fold effect ?cs s) w = Some (Str workspace)"
      by (simp add: workspace_fold workspace_written_append)
    with t show ?thesis by simp
  qed
  with result state show ?thesis by auto
qed

theorem sync_response_applied_witness:
  "windows (sync_response [(''A'', ''1''), (''B'', ''1'')]) = Payload [(''A'', ''1''), (''B'', ''1'')] \<and>
   distinct (map fst [(''A'', ''1''), (''B'', ''1'')]) \<and>
   Map_get (windowMap two_windows) ''A'' = Some 1 \<and> 1 \<in> set (windows_all two_windows) \<and>
   Map_get (windowMap two_windows) ''B'' = Some 2 \<and> 2 \<in> set (windows_all two_windows) \<and>
   inj_on (Map_get (windowMap two_windows)) (fst ` set [(''A'', ''1''), (''B'', ''1'')]) \<and>
   fst (handleHostMessage (sync_response [(''A'', ''1''), (''B'', ''1'')]) two_windows) = None \<and>
   titlePreface (snd (handleHostMessage (sync_response [(''A'', ''1''), (''B'', ''1'')]) two_windows)) 2 = '''' \<and>
   workspace_value (snd (handleHostMessage (sync_response [(''A'', ''1''), (''B'', ''1'')]) two_windows)) 2
     = Some (Str ''1'')"
proof -
  let ?p = "[(''A'', ''1''), (''B'', ''1'')]"
  have h1: "windows (sync_response ?p) = Payload ?p"
    by (simp add: sync_response_def)
  have h2: "distinct (map fst ?p)" by simp
  have h3: "\<forall>uuid\<in>fst ` set ?p.
      \<exists>w. Map_get (windowMap two_windows) uuid = Some w \<and> w \<in> set (windows_all two_windows)"
    by (simp add: two_windows_def Map_get_def)
  have h4: "inj_on (Map_get (windowMap two_windows)) (fst ` set ?p)"
    by (simp add: two_windows_def Map_get_def)
  have get: "Map_get (windowMap two_windows) ''B'' = Some 2"
    by (simp add: two_windows_def Map_get_def)
  have known: "Map_get (windowMap two_windows) ''A'' = Some 1 \<and> 1 \<in> set (windows_all two_windows)"
    by (simp add: two_windows_def Map_get_def)
  have opened: "2 \<in> set (windows_all two_windows)"
    by (simp add: two_windows_def)
  show ?thesis
    using h1 h2 h4 get known opened sync_response_applied [OF h1 h2 h3 h4] by auto
qed

subsection \<open>Applying a sync response twice\<close>

lemma fold_effect_twice: "fold effect cs (fold effect cs s) = fold effect cs s"
proof (rule state.equality)
  show "titlePreface (fold effect cs (fold effect cs s)) = titlePreface (fold effect cs s)"
    by (rule ext) (simp add: title_fold split: option.splits)
  show "workspace_value (fold effect cs (fold effect cs s)) = workspace_value (fold effect cs s)"
    by (rule ext) (simp add: workspace_fold split: option.splits)
  show "state.more (fold effect cs (fold effect cs s)) = state.more (fold effect cs s)"
    by simp
qed simp_all

lemma calls_windowMap:
  "windowMap s' = windowMap s \<Longrightarrow> unbeaconifyWindows p s' = unbeaconifyWindows p s"
  "windowMap s' = windowMap s \<Longrightarrow> windowsMoved p s' = windowsMoved p s"
  by (simp_all add: unbeaconifyWindows_def windowsMoved_def)

text \<open>
  Claim C8. Running \<open>handleHostMessage\<close> twice on the same message with a \<open>windows\<close>
  payload leaves every stored \<open>workspace\<close> value as one run leaves it.
\<close>

theorem sync_response_idempotent:
  "workspace_value
     (snd (handleHostMessage (m\<lparr>windows := Payload p\<rparr>)
        (snd (handleHostMessage (m\<lparr>windows := Payload p\<rparr>) s)))) =
   workspace_value (snd (handleHostMessage (m\<lparr>windows := Payload p\<rparr>) s))"
proof -
  let ?m = "m\<lparr>windows := Payload p\<rparr>"
  let ?cs = "issued (unbeaconifyWindows p s @ windowsMoved p s)"
  have m: "windows ?m = Payload p" by simp
  have once: "snd (handleHostMessage ?m s) = fold effect ?cs s"
    by (rule handleHostMessage_windows_state [OF m])
  have "snd (handleHostMessage ?m (fold effect ?cs s)) = fold effect ?cs (fold effect ?cs s)"
    by (simp add: handleHostMessage_windows_state [OF m]
        calls_windowMap [of "fold effect ?cs s" s])
  then show ?thesis
    by (simp add: once fold_effect_twice)
qed

subsection \<open>An identity that is not in the window map\<close>

lemma issued_unbeaconifyWindows:
  "issued (unbeaconifyWindows p s) = unbeaconifyWindows (known_prefix p s) s"
  by (induction p) (auto simp: unbeaconifyWindows_def known_prefix_def)

lemma issued_windowsMoved:
  "issued (windowsMoved p s) = windowsMoved (known_prefix p s) s"
  by (induction p) (auto simp: windowsMoved_def known_prefix_def)

lemma issued_idem: "issued (issued cs) = issued cs"
  by (induction cs) auto

lemma issued_append_throw:
  "\<exists>c\<in>set xs. call_window c = None \<Longrightarrow> issued (xs @ ys) = issued xs"
  by (induction xs) auto

lemma unknown_call:
  assumes "uuid \<in> fst ` set p" and "Map_get (windowMap s) uuid = None"
  shows "\<exists>c\<in>set (unbeaconifyWindows p s). call_window c = None"
    and "\<exists>c\<in>set (windowsMoved p s). call_window c = None"
  using assms by (force simp: unbeaconifyWindows_def windowsMoved_def)+

text \<open>
  Claim C3, as the script behaves. \<open>unbeaconifyWindows\<close> and \<open>windowsMoved\<close> hand
  \<open>windowMap.get(uuid)\<close> to the API without looking at it. For an identity that is
  not in the window map this is \<open>undefined\<close>, the call throws, and the handler ends
  there with its promise rejected. For a sync response the state is the one in which
  the titles of the entries before the first unknown identity were cleared, and no
  \<open>workspace\<close> value is written at all; for a move notification the state is the one
  in which the placements of the entries before the first unknown identity were stored.
\<close>

theorem unknown_identity_fails:
  assumes "uuid \<in> fst ` set p" and "Map_get (windowMap s) uuid = None"
  shows "handleHostMessage (sync_response p) s =
           (Some IncorrectArgumentTypes,
            snd (await_all (unbeaconifyWindows (known_prefix p s) s) s)) \<and>
         workspace_value (snd (handleHostMessage (sync_response p) s)) = workspace_value s \<and>
         handleHostMessage (move_notification p) s =
           (Some IncorrectArgumentTypes,
            snd (await_all (windowsMoved (known_prefix p s) s) s))"
proof -
  let ?u = "unbeaconifyWindows p s" and ?m = "windowsMoved p s"
  have thrown: "fst (await_all (?u @ ?m) s) = Throws IncorrectArgumentTypes"
    using unknown_call(1) [OF assms] by (intro await_all_throws) auto
  have "issued (?u @ ?m) = issued ?u"
    using unknown_call(1) [OF assms] by (rule issued_append_throw)
  then have state: "snd (await_all (?u @ ?m) s) =
      snd (await_all (unbeaconifyWindows (known_prefix p s) s) s)"
    by (simp add: await_all_state issued_unbeaconifyWindows [symmetric] issued_idem)
  have response: "handleHostMessage (sync_response p) s =
      (Some IncorrectArgumentTypes, snd (await_all (unbeaconifyWindows (known_prefix p s) s) s))"
    using thrown state
    by (cases "await_all (?u @ ?m) s") (simp add: handleHostMessage_def sync_response_def)
  have "workspace_value (snd (await_all (unbeaconifyWindows (known_prefix p s) s) s)) w
      = workspace_value s w" for w
    by (simp add: await_all_state workspace_fold issued_unbeaconifyWindows)
  then have store: "workspace_value (snd (handleHostMessage (sync_response p) s)) = workspace_value s"
    by (simp add: response fun_eq_iff)
  have thrown': "fst (await_all ?m s) = Throws IncorrectArgumentTypes"
    using unknown_call(2) [OF assms] by (rule await_all_throws)
  have state': "snd (await_all ?m s) = snd (await_all (windowsMoved (known_prefix p s) s) s)"
    by (simp add: await_all_state issued_windowsMoved [symmetric] issued_idem)
  have move: "handleHostMessage (move_notification p) s =
      (Some IncorrectArgumentTypes, snd (await_all (windowsMoved (known_prefix p s) s) s))"
    using thrown' state'
    by (cases "await_all ?m s") (simp add: handleHostMessage_def move_notification_def)
  from response store move show ?thesis by simp
qed

theorem unknown_identity_fails_witness:
  "''C'' \<in> fst ` set [(''A'', ''1''), (''C'', ''3''), (''B'', ''2'')] \<and>
   Map_get (windowMap two_windows) ''C'' = None \<and>
   known_prefix [(''A'', ''1''), (''C'', ''3''), (''B'', ''2'')] two_windows = [(''A'', ''1'')] \<and>
   fst (handleHostMessage (sync_response [(''A'', ''1''), (''C'', ''3''), (''B'', ''2'')]) two_windows)
     = Some IncorrectArgumentTypes \<and>
   workspace_value
     (snd (handleHostMessage (sync_response [(''A'', ''1''), (''C'', ''3''), (''B'', ''2'')]) two_windows))
     = workspace_value two_windows \<and>
   fst (handleHostMessage (move_notification [(''A'', ''1''), (''C'', ''3''), (''B'', ''2'')]) two_windows)
     = Some IncorrectArgumentTypes"
proof -
  let ?p = "[(''A'', ''1''), (''C'', ''3''), (''B'', ''2'')]"
  have h1: "''C'' \<in> fst ` set ?p" by simp
  have h2: "Map_get (windowMap two_windows) ''C'' = None"
    by (simp add: two_windows_def Map_get_def)
  have pre: "known_prefix ?p two_windows = [(''A'', ''1'')]"
    by (simp add: known_prefix_def two_windows_def Map_get_def)
  note r = unknown_identity_fails [OF h1 h2]
  have c1: "fst (handleHostMessage (sync_response ?p) two_windows) = Some IncorrectArgumentTypes"
    using r [THEN conjunct1] by simp
  have c2: "workspace_value (snd (handleHostMessage (sync_response ?p) two_windows))
      = workspace_value two_windows"
    using r [THEN conjunct2, THEN conjunct1] .
  have c3: "fst (handleHostMessage (move_notification ?p) two_windows) = Some IncorrectArgumentTypes"
    using r [THEN conjunct2, THEN conjunct2] by simp
  show ?thesis
    using h1 h2 pre c1 c2 c3 by simp
qed

text \<open>
  The claim as the specification has it (the unknown entry is skipped without an error and
  the known ones are applied) fails: with \<open>C\<close> unknown and listed before \<open>A\<close>, the
  handler is rejected, and the window of \<open>A\<close> keeps its marker and gets no workspace.
\<close>

theorem unknown_identity_counterexample:
  "fst (handleHostMessage (sync_response [(''C'', ''3''), (''A'', ''1'')]) two_windows)
     = Some IncorrectArgumentTypes \<and>
   Map_get (windowMap two_windows) ''A'' = Some 1 \<and>
   titlePreface (snd (handleHostMessage (sync_response [(''C'', ''3''), (''A'', ''1'')]) two_windows)) 1
     = ''A | '' \<and>
   workspace_value (snd (handleHostMessage (sync_response [(''C'', ''3''), (''A'', ''1'')]) two_windows)) 1
     = None"
  by (simp add: handleHostMessage_def sync_response_def unbeaconifyWindows_def windowsMoved_def
      two_windows_def Map_get_def)

subsection \<open>Renaming a workspace\<close>

lemma workspaceRenamed_calls_open:
  "\<forall>c\<in>set (concat (map (workspaceRenamed_window payload s0) ws)).
     \<exists>w. call_window c = Some w \<and> w \<in> set ws"
  by (induction ws) (auto simp: workspaceRenamed_window_def split: property.splits)

lemma workspace_written_window:
  "workspace_written opened (workspaceRenamed_window payload s0 x) w =
     (if w = x \<and> x \<in> set opened
      then (case get_prop payload (to_key (workspace_value s0 x)) of
              NotFound \<Rightarrow> None
            | Own v \<Rightarrow> Some (Str v)
            | Inherited f \<Rightarrow> Some Null)
      else None)"
  by (cases "get_prop payload (to_key (workspace_value s0 x))")
    (simp_all add: workspaceRenamed_window_def)

lemma workspace_written_workspaceRenamed:
  "workspace_written opened (concat (map (workspaceRenamed_window payload s0) ws)) w =
     (if w \<in> set ws \<and> w \<in> set opened
      then (case get_prop payload (to_key (workspace_value s0 w)) of
              NotFound \<Rightarrow> None
            | Own v \<Rightarrow> Some (Str v)
            | Inherited f \<Rightarrow> Some Null)
      else None)"
proof (induction ws)
  case Nil
  show ?case by simp
next
  case (Cons x ws)
  show ?case
    by (simp add: workspace_written_append workspace_written_window Cons map_add_def
        split: property.splits)
qed

lemma workspaceRenamed_fulfilled: "fst (workspaceRenamed payload s) = Resolves"
  unfolding workspaceRenamed_def Let_def
  using workspaceRenamed_calls_open [of payload s "windows_all s"]
  by (intro await_all_resolves) auto

lemma workspaceRenamed_workspace_value:
  "workspace_value (snd (workspaceRenamed payload s)) w =
     (if w \<in> set (windows_all s) then renamed payload (workspace_value s w)
      else workspace_value s w)"
proof -
  let ?cs = "concat (map (workspaceRenamed_window payload s) (windows_all s))"
  have "issued ?cs = ?cs"
    using workspaceRenamed_calls_open [of payload s "windows_all s"]
    by (intro issued_all) auto
  then have "snd (workspaceRenamed payload s) = fold effect ?cs s"
    by (simp add: workspaceRenamed_def await_all_state)
  then show ?thesis
    by (simp add: workspace_fold workspace_written_workspaceRenamed renamed_def
        split: property.splits)
qed

lemma handleHostMessage_rename:
  "handleHostMessage (rename_notification payload) s = (None, snd (workspaceRenamed payload s))"
  using workspaceRenamed_fulfilled [of payload s]
  by (cases "workspaceRenamed payload s") (simp add: handleHostMessage_def rename_notification_def)

text \<open>
  The renaming as it is meant: after the notification \<open>old \<rightarrow> new\<close>, an open window
  whose stored workspace is the string \<open>old\<close> has \<open>new\<close>, and an open window whose
  stored workspace is another string, not the name of a member of \<open>Object.prototype\<close>,
  keeps it.
\<close>

lemma rename_propagates:
  assumes "w \<in> set (windows_all s)" and "workspace_value s w = Some (Str name)"
  shows "name = old \<Longrightarrow>
           workspace_value (snd (handleHostMessage (rename_notification [(old, new)]) s)) w
             = Some (Str new)"
    and "name \<noteq> old \<Longrightarrow> name \<notin> set Object_prototype \<Longrightarrow>
           workspace_value (snd (handleHostMessage (rename_notification [(old, new)]) s)) w
             = Some (Str name)"
  using assms
  by (simp_all add: handleHostMessage_rename workspaceRenamed_workspace_value renamed_def
      get_prop_def)

text \<open>
  Claim C2 at the input where the script departs from it. The workspace called
  \<open>undefined\<close> is renamed to \<open>x\<close>. Window 2 has no stored workspace, so
  \<open>oldWorkspace\<close> is \<open>undefined\<close>, \<open>payload[oldWorkspace]\<close> reads the property
  \<open>undefined\<close> of the payload, and the window is given the workspace \<open>x\<close>. Windows 1
  and 3 keep theirs.
\<close>

theorem rename_undefined_workspace:
  "workspace_value three_windows 2 = None \<and>
   handleHostMessage (rename_notification [(''undefined'', ''x'')]) three_windows =
     (None, snd (workspaceRenamed [(''undefined'', ''x'')] three_windows)) \<and>
   workspace_value (snd (workspaceRenamed [(''undefined'', ''x'')] three_windows)) 1
     = Some (Str ''1'') \<and>
   workspace_value (snd (workspaceRenamed [(''undefined'', ''x'')] three_windows)) 2
     = Some (Str ''x'') \<and>
   workspace_value (snd (workspaceRenamed [(''undefined'', ''x'')] three_windows)) 3
     = Some (Str ''2'')"
  by (simp add: handleHostMessage_rename workspaceRenamed_workspace_value renamed_def get_prop_def
      Object_prototype_def three_windows_def)

subsection \<open>Messages without a payload\<close>

text \<open>
  Claim C10. A message in which \<open>windows\<close>, \<open>window::move\<close> and \<open>workspace::rename\<close>
  are each absent or falsy: \<open>handleHostMessage\<close> is fulfilled and the state (titles,
  session store, window map) is the one it started from.
\<close>

theorem handleHostMessage_no_payload:
  assumes "windows m \<in> {Absent, Falsy}"
    and "window_move m \<in> {Absent, Falsy}"
    and "workspace_rename m \<in> {Absent, Falsy}"
  shows "handleHostMessage m s = (None, s)"
  using assms by (auto simp: handleHostMessage_def)

theorem handleHostMessage_no_payload_witness:
  "windows \<lparr>windows = Falsy, window_move = Absent, workspace_rename = Absent\<rparr> \<in> {Absent, Falsy} \<and>
   window_move \<lparr>windows = Falsy, window_move = Absent, workspace_rename = Absent\<rparr> \<in> {Absent, Falsy} \<and>
   workspace_rename \<lparr>windows = Falsy, window_move = Absent, workspace_rename = Absent\<rparr>
     \<in> {Absent, Falsy} \<and>
   handleHostMessage \<lparr>windows = Falsy, window_move = Absent, workspace_rename = Absent\<rparr> two_windows
     = (None, two_windows)"
proof -
  let ?m = "\<lparr>windows = Falsy, window_move = Absent, workspace_rename = Absent\<rparr>"
  have h1: "windows ?m \<in> {Absent, Falsy}" by simp
  have h2: "window_move ?m \<in> {Absent, Falsy}" by simp
  have h3: "workspace_rename ?m \<in> {Absent, Falsy}" by simp
  show ?thesis
    using h1 h2 h3 handleHostMessage_no_payload [OF h1 h2 h3, of two_windows] by simp
qed

subsection \<open>Titles written by a list of calls\<close>

lemma title_written_call:
  "title_written ws cs w = Some t \<Longrightarrow> WindowsUpdate (Some w) t \<in> set cs \<and> w \<in> set ws"
  by (induction ws cs rule: title_written.induct)
    (auto simp: map_add_def split: option.splits if_splits)

lemma issued_subset: "set (issued cs) \<subseteq> set cs"
  by (induction cs) auto

lemma await_all_title:
  "titlePreface (snd (await_all cs s)) w = titlePreface s w \<or>
   WindowsUpdate (Some w) (titlePreface (snd (await_all cs s)) w) \<in> set cs"
proof (cases "title_written (windows_all s) (issued cs) w")
  case None
  then show ?thesis by (simp add: await_all_state title_fold)
next
  case (Some t)
  then have "WindowsUpdate (Some w) t \<in> set cs"
    using title_written_call [OF Some] issued_subset [of cs] by auto
  then show ?thesis using Some by (simp add: await_all_state title_fold)
qed

lemma await_all_frame [simp]:
  "windowMap (snd (await_all cs s)) = windowMap s"
  "uuid_value (snd (await_all cs s)) = uuid_value s"
  "randomUUID (snd (await_all cs s)) = randomUUID s"
  "drawn (snd (await_all cs s)) = drawn s"
  "posted (snd (await_all cs s)) = posted s"
  by (simp_all add: await_all_state)

lemma title_written_beaconifyWindows:
  "distinct (map snd byUUID) \<Longrightarrow> (uuid, w) \<in> set byUUID \<Longrightarrow> w \<in> set ws \<Longrightarrow>
   title_written ws (beaconifyWindows byUUID) w = Some (uuid @ '' | '')"
proof (induction byUUID)
  case Nil
  then show ?case by simp
next
  case (Cons e byUUID)
  obtain uuid' w' where e: "e = (uuid', w')" by (cases e)
  have split: "beaconifyWindows (e # byUUID) =
      WindowsUpdate (Some w') (uuid' @ '' | '') # beaconifyWindows byUUID"
    by (simp add: beaconifyWindows_def e)
  show ?case
  proof (cases "(uuid, w) \<in> set byUUID")
    case True
    then have "title_written ws (beaconifyWindows byUUID) w = Some (uuid @ '' | '')"
      using Cons by simp
    then show ?thesis unfolding split by (simp add: map_add_def)
  next
    case False
    with Cons.prems e have same: "uuid' = uuid" "w' = w" by auto
    have "title_written ws (beaconifyWindows byUUID) w = None"
    proof (cases "title_written ws (beaconifyWindows byUUID) w")
      case (Some t)
      from title_written_call [OF Some] have "w \<in> snd ` set byUUID"
        by (force simp: beaconifyWindows_def)
      then show ?thesis using Cons.prems(1) e same by simp
    qed simp
    then show ?thesis unfolding split using same Cons.prems(3) by (simp add: map_add_def)
  qed
qed

lemma beaconifyWindows_calls:
  "c \<in> set (beaconifyWindows byUUID) \<Longrightarrow>
   \<exists>uuid w. (uuid, w) \<in> set byUUID \<and> c = WindowsUpdate (Some w) (uuid @ '' | '')"
  by (auto simp: beaconifyWindows_def)

lemma beaconifyWindows_resolves:
  "snd ` set byUUID \<subseteq> set (windows_all s) \<Longrightarrow>
   fst (await_all (beaconifyWindows byUUID) s) = Resolves"
  by (rule await_all_resolves) (auto simp: beaconifyWindows_def)

lemma beaconifyWindows_issued [simp]: "issued (beaconifyWindows byUUID) = beaconifyWindows byUUID"
  by (rule issued_all) (auto simp: beaconifyWindows_def)

lemma title_written_some_beacon:
  "(uuid, w) \<in> set byUUID \<Longrightarrow> w \<in> set ws \<Longrightarrow>
   \<exists>uuid'. (uuid', w) \<in> set byUUID \<and>
     title_written ws (beaconifyWindows byUUID) w = Some (uuid' @ '' | '')"
proof (induction byUUID arbitrary: uuid)
  case Nil
  then show ?case by simp
next
  case (Cons e byUUID)
  obtain uuid' w' where e: "e = (uuid', w')" by (cases e)
  have split: "beaconifyWindows (e # byUUID) =
      WindowsUpdate (Some w') (uuid' @ '' | '') # beaconifyWindows byUUID"
    by (simp add: beaconifyWindows_def e)
  show ?case
  proof (cases "title_written ws (beaconifyWindows byUUID) w")
    case None
    have "w' = w"
    proof (rule ccontr)
      assume "w' \<noteq> w"
      with Cons.prems e have "(uuid, w) \<in> set byUUID" by auto
      from Cons.IH [OF this Cons.prems(2)] None show False by simp
    qed
    then show ?thesis unfolding split using None Cons.prems(2) e
      by (intro exI [of _ uuid']) (simp add: map_add_def)
  next
    case (Some t)
    from title_written_call [OF Some] obtain u where "(u, w) \<in> set byUUID"
      by (auto simp: beaconifyWindows_def)
    from Cons.IH [OF this Cons.prems(2)] obtain u' where
      "(u', w) \<in> set byUUID" "title_written ws (beaconifyWindows byUUID) w = Some (u' @ '' | '')"
      by blast
    then show ?thesis unfolding split by (intro exI [of _ u']) (simp add: map_add_def)
  qed
qed

subsection \<open>Posting a request\<close>

lemma makeWindowMap_frame [simp]:
  "windowMap (snd (makeWindowMap ws s)) = windowMap s"
  "windows_all (snd (makeWindowMap ws s)) = windows_all s"
  "workspace_value (snd (makeWindowMap ws s)) = workspace_value s"
  "titlePreface (snd (makeWindowMap ws s)) = titlePreface s"
  "posted (snd (makeWindowMap ws s)) = posted s"
proof -
  obtain e es s' where r: "makeWindowMap_entries s ws s = (e, es, s')"
    by (cases "makeWindowMap_entries s ws s") auto
  have s': "snd (makeWindowMap ws s) = s'"
    by (simp add: makeWindowMap_def r split: option.splits)
  from makeWindowMap_entries_frame [OF r]
  show "windowMap (snd (makeWindowMap ws s)) = windowMap s"
    "windows_all (snd (makeWindowMap ws s)) = windows_all s"
    "workspace_value (snd (makeWindowMap ws s)) = workspace_value s"
    "titlePreface (snd (makeWindowMap ws s)) = titlePreface s"
    "posted (snd (makeWindowMap ws s)) = posted s"
    by (simp_all add: s')
qed

lemma makeWindowMap_distinct:
  "makeWindowMap ws s = (Inr wmap, s') \<Longrightarrow> distinct (map fst wmap)"
  by (auto simp: makeWindowMap_def split: prod.splits option.splits)

lemma makeWindowMap_windows:
  "makeWindowMap ws s = (Inr wmap, s') \<Longrightarrow> snd ` set wmap \<subseteq> set ws"
proof -
  assume a: "makeWindowMap ws s = (Inr wmap, s')"
  obtain e es s1 where r: "makeWindowMap_entries s ws s = (e, es, s1)"
    by (cases "makeWindowMap_entries s ws s") auto
  from a r have wmap: "wmap = Map_new es"
    by (auto simp: makeWindowMap_def split: option.splits)
  show ?thesis
  proof
    fix w assume "w \<in> snd ` set wmap"
    then obtain u where "(u, w) \<in> set wmap" by force
    then have "map_of wmap u = Some w"
      using makeWindowMap_distinct [OF a] by simp
    moreover have "map_of wmap u = map_of (rev es) u"
      using Map_get_Map_new [of es] by (simp add: wmap Map_get_def fun_eq_iff)
    ultimately have "map_of (rev es) u = Some w" by simp
    then have "(u, w) \<in> set es" by (auto dest: map_of_SomeD)
    then show "w \<in> set ws" using makeWindowMap_entries_keys [OF r] by simp
  qed
qed

lemma updateWindowMap_frame [simp]:
  "windows_all (updateWindowMap wmap s) = windows_all s"
  "uuid_value (updateWindowMap wmap s) = uuid_value s"
  "workspace_value (updateWindowMap wmap s) = workspace_value s"
  "titlePreface (updateWindowMap wmap s) = titlePreface s"
  "posted (updateWindowMap wmap s) = posted s"
  by (simp_all add: updateWindowMap_def)

lemma updateWindowMap_distinct [simp]: "distinct (map fst (windowMap (updateWindowMap wmap s)))"
  by (simp add: updateWindowMap_def)

lemma updateWindowMap_get:
  "distinct (map fst wmap) \<Longrightarrow> (uuid, w) \<in> set wmap \<Longrightarrow>
   Map_get (windowMap (updateWindowMap wmap s)) uuid = Some w"
  by (simp add: updateWindowMap_def Map_get_Map_new map_of_rev_distinct map_add_def)

lemma post_windows_state:
  "snd (post_windows byUUID s) = snd (await_all (beaconifyWindows byUUID) s) \<or>
   (fst (post_windows byUUID s) = None \<and>
    (\<exists>msg. fst (makeWindowsMessage byUUID s) = Inr msg \<and>
       snd (post_windows byUUID s) =
         (snd (await_all (beaconifyWindows byUUID) s))
           \<lparr>posted := posted s @ [msg]\<rparr>))"
proof -
  obtain r where r: "makeWindowsMessage byUUID s = (r, s)"
    using makeWindowsMessage_state [of byUUID s] by (cases "makeWindowsMessage byUUID s") simp
  obtain c s2 where c: "await_all (beaconifyWindows byUUID) s = (c, s2)"
    by (cases "await_all (beaconifyWindows byUUID) s")
  have "posted s2 = posted s"
    using await_all_frame(5) [of "beaconifyWindows byUUID" s] by (simp add: c)
  then show ?thesis
    by (cases r; cases "settled c") (simp_all add: post_windows_def r c)
qed

lemma post_windows_frame [simp]:
  "windowMap (snd (post_windows byUUID s)) = windowMap s"
  "windows_all (snd (post_windows byUUID s)) = windows_all s"
  "titlePreface (snd (post_windows byUUID s)) =
     titlePreface (snd (await_all (beaconifyWindows byUUID) s))"
  using post_windows_state [of byUUID s] by auto

lemma post_windows_fulfilled:
  assumes "distinct (map fst byUUID)" and "fst (post_windows byUUID s) = None"
  shows "snd ` set byUUID \<subseteq> set (windows_all s)"
    and "posted (snd (post_windows byUUID s)) =
           posted s @ [map (\<lambda>(uuid, wid).
              (uuid, case workspace_value s wid of None \<Rightarrow> Null | Some j \<Rightarrow> j)) byUUID]"
proof -
  obtain r where r: "makeWindowsMessage byUUID s = (r, s)"
    using makeWindowsMessage_state [of byUUID s] by (cases "makeWindowsMessage byUUID s") simp
  obtain c s2 where c: "await_all (beaconifyWindows byUUID) s = (c, s2)"
    by (cases "await_all (beaconifyWindows byUUID) s")
  have p: "posted s2 = posted s"
    using await_all_frame(5) [of "beaconifyWindows byUUID" s] by (simp add: c)
  show opened: "snd ` set byUUID \<subseteq> set (windows_all s)"
  proof (rule ccontr)
    assume "\<not> snd ` set byUUID \<subseteq> set (windows_all s)"
    from makeWindowsMessage_closed [OF this] obtain e where "r = Inl e" by (auto simp: r)
    then show False using assms(2) by (simp add: post_windows_def r c)
  qed
  from makeWindowsMessage_open [OF assms(1) opened]
  have "r = Inr (map (\<lambda>(uuid, wid).
              (uuid, case workspace_value s wid of None \<Rightarrow> Null | Some j \<Rightarrow> j)) byUUID)"
    by (simp add: r)
  then show "posted (snd (post_windows byUUID s)) =
           posted s @ [map (\<lambda>(uuid, wid).
              (uuid, case workspace_value s wid of None \<Rightarrow> Null | Some j \<Rightarrow> j)) byUUID]"
    using assms(2) p by (cases "settled c") (simp_all add: post_windows_def r c)
qed

lemma post_windows_title:
  "titlePreface (snd (post_windows byUUID s)) w = titlePreface s w \<or>
   (\<exists>uuid. (uuid, w) \<in> set byUUID \<and>
      titlePreface (snd (post_windows byUUID s)) w = uuid @ '' | '')"
  using await_all_title [of "beaconifyWindows byUUID" s w]
  by (auto dest: beaconifyWindows_calls)

lemma post_windows_marked:
  assumes "snd ` set byUUID \<subseteq> set (windows_all s)" and "(uuid, w) \<in> set byUUID"
  shows "\<exists>uuid'. (uuid', w) \<in> set byUUID \<and>
     titlePreface (snd (post_windows byUUID s)) w = uuid' @ '' | ''"
proof -
  from assms have "w \<in> set (windows_all s)" by force
  from title_written_some_beacon [OF assms(2) this]
  show ?thesis by (auto simp: await_all_state title_fold)
qed

lemma post_windows_request:
  assumes "distinct (map fst byUUID)"
    and "\<And>uuid w. (uuid, w) \<in> set byUUID \<Longrightarrow> Map_get (windowMap s) uuid = Some w"
  shows "posted (snd (post_windows byUUID s)) = posted s \<or>
    (\<exists>msg. posted (snd (post_windows byUUID s)) = posted s @ [msg] \<and>
       fst ` set msg = fst ` set byUUID \<and>
       (\<forall>uuid\<in>fst ` set msg. \<exists>w.
          Map_get (windowMap (snd (post_windows byUUID s))) uuid = Some w \<and>
          titlePreface (snd (post_windows byUUID s)) w \<noteq> '''' \<and>
          (\<exists>uuid'. Map_get (windowMap (snd (post_windows byUUID s))) uuid' = Some w \<and>
             titlePreface (snd (post_windows byUUID s)) w = uuid' @ '' | '')))"
proof (cases "fst (post_windows byUUID s) = None")
  case False
  then show ?thesis using post_windows_state [of byUUID s] by auto
next
  case True
  let ?s' = "snd (post_windows byUUID s)"
  let ?msg = "map (\<lambda>(uuid, wid).
              (uuid, case workspace_value s wid of None \<Rightarrow> Null | Some j \<Rightarrow> j)) byUUID"
  note f = post_windows_fulfilled [OF assms(1) True]
  have keys: "fst ` set ?msg = fst ` set byUUID" by force
  have "\<exists>w. Map_get (windowMap ?s') uuid = Some w \<and> titlePreface ?s' w \<noteq> '''' \<and>
          (\<exists>uuid'. Map_get (windowMap ?s') uuid' = Some w \<and>
             titlePreface ?s' w = uuid' @ '' | '')"
    if "uuid \<in> fst ` set byUUID" for uuid
  proof -
    from that obtain w where e: "(uuid, w) \<in> set byUUID" by force
    from post_windows_marked [OF f(1) e] obtain uuid' where
      m: "(uuid', w) \<in> set byUUID" "titlePreface ?s' w = uuid' @ '' | ''" by blast
    show ?thesis
      using assms(2) [OF e] assms(2) [OF m(1)] m(2) by (intro exI [of _ w]) auto
  qed
  then show ?thesis using f(2) keys by (intro disjI2 exI [of _ ?msg]) (simp only:, blast)
qed

lemma main_state:
  "(\<exists>e. fst (makeWindowMap (windows_all s) s) = Inl e \<and>
      main s = (Some e, snd (makeWindowMap (windows_all s) s))) \<or>
   (\<exists>wmap. fst (makeWindowMap (windows_all s) s) = Inr wmap \<and>
      main s = post_windows
        (windowMap (updateWindowMap wmap (snd (makeWindowMap (windows_all s) s))))
        (updateWindowMap wmap (snd (makeWindowMap (windows_all s) s))))"
  by (cases "makeWindowMap (windows_all s) s"; cases "fst (makeWindowMap (windows_all s) s)")
    (simp_all add: main_def Let_def)

lemma handleWindowCreated_state:
  "(\<exists>e. fst (makeWindowMap [x] s) = Inl e \<and>
      handleWindowCreated x s = (Some e, snd (makeWindowMap [x] s))) \<or>
   (\<exists>wmap. fst (makeWindowMap [x] s) = Inr wmap \<and> distinct (map fst wmap) \<and>
      handleWindowCreated x s =
        post_windows wmap (updateWindowMap wmap (snd (makeWindowMap [x] s))))"
proof (cases "makeWindowMap [x] s")
  case (Pair r s1)
  show ?thesis
  proof (cases r)
    case (Inl e)
    then show ?thesis using Pair by (simp add: handleWindowCreated_def)
  next
    case (Inr wmap)
    then have "distinct (map fst wmap)"
      using Pair makeWindowMap_distinct [of "[x]" s wmap s1] by simp
    then show ?thesis using Pair Inr by (simp add: handleWindowCreated_def)
  qed
qed

lemma main_request:
  "posted (snd (main s)) = posted s \<or>
    (\<exists>msg. posted (snd (main s)) = posted s @ [msg] \<and>
       (\<forall>uuid\<in>fst ` set msg. \<exists>w.
          Map_get (windowMap (snd (main s))) uuid = Some w \<and>
          titlePreface (snd (main s)) w \<noteq> '''' \<and>
          (\<exists>uuid'. Map_get (windowMap (snd (main s))) uuid' = Some w \<and>
             titlePreface (snd (main s)) w = uuid' @ '' | '')))"
proof -
  let ?s1 = "snd (makeWindowMap (windows_all s) s)"
  from main_state [of s] show ?thesis
  proof (elim disjE exE conjE)
    fix e assume "main s = (Some e, ?s1)"
    then show ?thesis by simp
  next
    fix wmap
    let ?s2 = "updateWindowMap wmap ?s1"
    assume m: "main s = post_windows (windowMap ?s2) ?s2"
    have "Map_get (windowMap ?s2) uuid = Some w" if "(uuid, w) \<in> set (windowMap ?s2)" for uuid w
      using that by (simp add: Map_get_def)
    from post_windows_request [of "windowMap ?s2" ?s2, OF updateWindowMap_distinct this]
    show ?thesis unfolding m by (simp only: updateWindowMap_frame makeWindowMap_frame) blast
  qed
qed

lemma handleWindowCreated_request:
  "posted (snd (handleWindowCreated x s)) = posted s \<or>
    (\<exists>msg. posted (snd (handleWindowCreated x s)) = posted s @ [msg] \<and>
       (\<forall>uuid\<in>fst ` set msg. \<exists>w.
          Map_get (windowMap (snd (handleWindowCreated x s))) uuid = Some w \<and>
          titlePreface (snd (handleWindowCreated x s)) w \<noteq> '''' \<and>
          (\<exists>uuid'. Map_get (windowMap (snd (handleWindowCreated x s))) uuid' = Some w \<and>
             titlePreface (snd (handleWindowCreated x s)) w = uuid' @ '' | '')))"
proof -
  let ?s1 = "snd (makeWindowMap [x] s)"
  from handleWindowCreated_state [of x s] show ?thesis
  proof (elim disjE exE conjE)
    fix e assume "handleWindowCreated x s = (Some e, ?s1)"
    then show ?thesis by simp
  next
    fix wmap
    let ?s2 = "updateWindowMap wmap ?s1"
    assume d: "distinct (map fst wmap)" and m: "handleWindowCreated x s = post_windows wmap ?s2"
    have "Map_get (windowMap ?s2) uuid = Some w" if "(uuid, w) \<in> set wmap" for uuid w
      using d that by (rule updateWindowMap_get)
    from post_windows_request [of wmap ?s2, OF d this]
    show ?thesis unfolding m by (simp only: updateWindowMap_frame makeWindowMap_frame) blast
  qed
qed

subsection \<open>The text of the markers\<close>

lemma main_title:
  "titlePreface (snd (main s)) w = titlePreface s w \<or>
   (\<exists>uuid. Map_get (windowMap (snd (main s))) uuid = Some w \<and>
      titlePreface (snd (main s)) w = uuid @ '' | '')"
proof -
  let ?s1 = "snd (makeWindowMap (windows_all s) s)"
  from main_state [of s] show ?thesis
  proof (elim disjE exE conjE)
    fix e assume "main s = (Some e, ?s1)"
    then show ?thesis by simp
  next
    fix wmap
    let ?s2 = "updateWindowMap wmap ?s1"
    assume m: "main s = post_windows (windowMap ?s2) ?s2"
    have get: "Map_get (windowMap ?s2) uuid = Some w" if "(uuid, w) \<in> set (windowMap ?s2)" for uuid
      using that by (simp add: Map_get_def)
    from post_windows_title [of "windowMap ?s2" ?s2 w] show ?thesis
      unfolding m using get by (auto simp del: post_windows_frame(3) simp: post_windows_frame(1))
  qed
qed

lemma handleWindowCreated_title:
  "titlePreface (snd (handleWindowCreated x s)) w = titlePreface s w \<or>
   (\<exists>uuid. Map_get (windowMap (snd (handleWindowCreated x s))) uuid = Some w \<and>
      titlePreface (snd (handleWindowCreated x s)) w = uuid @ '' | '')"
proof -
  let ?s1 = "snd (makeWindowMap [x] s)"
  from handleWindowCreated_state [of x s] show ?thesis
  proof (elim disjE exE conjE)
    fix e assume "handleWindowCreated x s = (Some e, ?s1)"
    then show ?thesis by simp
  next
    fix wmap
    let ?s2 = "updateWindowMap wmap ?s1"
    assume d: "distinct (map fst wmap)" and m: "handleWindowCreated x s = post_windows wmap ?s2"
    have get: "Map_get (windowMap ?s2) uuid = Some w" if "(uuid, w) \<in> set wmap" for uuid
      using d that by (rule updateWindowMap_get)
    from post_windows_title [of wmap ?s2 w] show ?thesis
      unfolding m using get by (auto simp del: post_windows_frame(3) simp: post_windows_frame(1))
  qed
qed

lemma message_cases:
  obtains
    (response) p where "windows m = Payload p"
  | (move) p where "windows m \<in> {Absent, Falsy}" and "window_move m = Payload p"
  | (rename) p where "windows m \<in> {Absent, Falsy}" and "window_move m \<in> {Absent, Falsy}"
      and "workspace_rename m = Payload p"
  | (nothing) "windows m \<in> {Absent, Falsy}" and "window_move m \<in> {Absent, Falsy}"
      and "workspace_rename m \<in> {Absent, Falsy}"
  by (cases "windows m"; cases "window_move m"; cases "workspace_rename m") auto

lemma handleHostMessage_state:
  "\<exists>cs. snd (handleHostMessage m s) = snd (await_all cs s) \<and>
     (\<forall>w t. WindowsUpdate w t \<in> set cs \<longrightarrow>
        t = '''' \<and> (\<exists>p. windows m = Payload p \<and> cs = unbeaconifyWindows p s @ windowsMoved p s))"
proof (cases m rule: message_cases)
  case (response p)
  then show ?thesis
    by (intro exI [of _ "unbeaconifyWindows p s @ windowsMoved p s"])
      (auto simp: handleHostMessage_def unbeaconifyWindows_def windowsMoved_def split: prod.splits)
next
  case (move p)
  then show ?thesis
    by (intro exI [of _ "windowsMoved p s"])
      (auto simp: handleHostMessage_def windowsMoved_def split: prod.splits)
next
  case (rename p)
  have "\<forall>c\<in>set (concat (map (workspaceRenamed_window p s) (windows_all s))).
      \<exists>w v. c = SetWorkspace w v"
    by (auto simp: workspaceRenamed_window_def split: property.splits)
  with rename show ?thesis
    by (intro exI [of _ "concat (map (workspaceRenamed_window p s) (windows_all s))"])
      (auto simp: handleHostMessage_def workspaceRenamed_def split: prod.splits)
next
  case nothing
  then show ?thesis
    by (intro exI [of _ "[]"]) (auto simp: handleHostMessage_def)
qed

lemma handleHostMessage_title:
  "titlePreface (snd (handleHostMessage m s)) w = titlePreface s w \<or>
   titlePreface (snd (handleHostMessage m s)) w = ''''"
proof -
  from handleHostMessage_state [of m s] obtain cs where
    cs: "snd (handleHostMessage m s) = snd (await_all cs s)"
      "\<forall>w t. WindowsUpdate w t \<in> set cs \<longrightarrow> t = ''''"
    by blast
  from await_all_title [of cs s w] show ?thesis
    unfolding cs(1) using cs(2) by auto
qed

lemma handleHostMessage_notification_title:
  assumes "windows m \<in> {Absent, Falsy}"
  shows "titlePreface (snd (handleHostMessage m s)) = titlePreface s"
proof
  fix w
  from handleHostMessage_state [of m s] obtain cs where
    cs: "snd (handleHostMessage m s) = snd (await_all cs s)"
      "\<forall>w t. WindowsUpdate w t \<in> set cs \<longrightarrow> (\<exists>p. windows m = Payload p)"
    by blast
  from await_all_title [of cs s w] show "titlePreface (snd (handleHostMessage m s)) w = titlePreface s w"
    unfolding cs(1) using cs(2) assms by auto
qed

lemma sync_response_title:
  assumes "\<forall>uuid\<in>fst ` set p. Map_get (windowMap s) uuid \<noteq> None"
  shows "titlePreface (snd (handleHostMessage (sync_response p) s)) w =
     (if w \<in> set (windows_all s) \<and> (\<exists>uuid\<in>fst ` set p. Map_get (windowMap s) uuid = Some w)
      then '''' else titlePreface s w)"
proof -
  let ?cs = "unbeaconifyWindows p s @ windowsMoved p s"
  have "\<forall>c\<in>set ?cs. call_window c \<noteq> None"
    using assms by (auto simp: unbeaconifyWindows_def windowsMoved_def)
  then have "issued ?cs = ?cs" by (rule issued_all)
  then have "snd (handleHostMessage (sync_response p) s) = fold effect ?cs s"
    using handleHostMessage_windows_state [of "sync_response p" p s]
    by (simp add: sync_response_def)
  then show ?thesis
    by (auto simp: title_fold title_written_append title_written_unbeaconifyWindows)
qed

lemma beaconifiedI:
  assumes "\<forall>uuid\<in>fst ` set msg. \<exists>w.
          Map_get (windowMap s) uuid = Some w \<and> titlePreface s w \<noteq> '''' \<and>
          (\<exists>uuid'. Map_get (windowMap s) uuid' = Some w \<and> titlePreface s w = uuid' @ '' | '')"
  shows "beaconified msg s"
  unfolding beaconified_def
proof
  fix uuid assume "uuid \<in> fst ` set msg"
  with assms obtain w uuid' where w: "Map_get (windowMap s) uuid = Some w"
    "titlePreface s w \<noteq> ''''" "Map_get (windowMap s) uuid' = Some w"
    "titlePreface s w = uuid' @ '' | ''"
    by blast
  from w(3) have "uuid' \<in> fst ` set (windowMap s)"
    by (force simp: Map_get_def dest: map_of_SomeD)
  with w show "case Map_get (windowMap s) uuid of
          None \<Rightarrow> False
        | Some w \<Rightarrow>
            titlePreface s w \<noteq> '''' \<and>
            (\<exists>uuid'\<in>fst ` set (windowMap s).
               Map_get (windowMap s) uuid' = Some w \<and> titlePreface s w = uuid' @ '' | '')"
    by auto
qed

text \<open>
  Claim C6. \<open>beaconifyWindows\<close>, for open windows each named once, leaves the title of
  every window as its identity followed by space, bar, space. \<open>unbeaconifyWindows\<close>,
  for identities of the window map, leaves the title of every open window it names
  empty. And whatever the script is given (startup, a new window, a message of the
  host), the title of a window afterwards is the one it had, or the empty string, or the
  marker of an identity the window map gives to this window.
\<close>

theorem marker_text:
  "(snd ` set byUUID \<subseteq> set (windows_all s) \<and> distinct (map snd byUUID) \<longrightarrow>
      (\<forall>(uuid, w)\<in>set byUUID.
         titlePreface (snd (await_all (beaconifyWindows byUUID) s)) w = uuid @ '' | '')) \<and>
   ((\<forall>uuid\<in>fst ` set p. Map_get (windowMap s) uuid \<noteq> None) \<longrightarrow>
      (\<forall>uuid\<in>fst ` set p. \<forall>w\<in>set (windows_all s). Map_get (windowMap s) uuid = Some w \<longrightarrow>
         titlePreface (snd (await_all (unbeaconifyWindows p s) s)) w = '''')) \<and>
   (titlePreface (snd (handle ev s)) w = titlePreface s w \<or>
    titlePreface (snd (handle ev s)) w = '''' \<or>
    (\<exists>uuid. Map_get (windowMap (snd (handle ev s))) uuid = Some w \<and>
       titlePreface (snd (handle ev s)) w = uuid @ '' | ''))"
proof (intro conjI impI)
  assume a: "snd ` set byUUID \<subseteq> set (windows_all s) \<and> distinct (map snd byUUID)"
  show "\<forall>(uuid, w)\<in>set byUUID.
         titlePreface (snd (await_all (beaconifyWindows byUUID) s)) w = uuid @ '' | ''"
  proof (clarify)
    fix uuid w assume e: "(uuid, w) \<in> set byUUID"
    with a have "w \<in> set (windows_all s)" by force
    with a e have "title_written (windows_all s) (beaconifyWindows byUUID) w = Some (uuid @ '' | '')"
      by (intro title_written_beaconifyWindows) auto
    then show "titlePreface (snd (await_all (beaconifyWindows byUUID) s)) w = uuid @ '' | ''"
      by (simp add: await_all_state title_fold)
  qed
next
  assume a: "\<forall>uuid\<in>fst ` set p. Map_get (windowMap s) uuid \<noteq> None"
  then have "\<forall>c\<in>set (unbeaconifyWindows p s). call_window c \<noteq> None"
    by (auto simp: unbeaconifyWindows_def)
  then have "issued (unbeaconifyWindows p s) = unbeaconifyWindows p s"
    by (rule issued_all)
  then show "\<forall>uuid\<in>fst ` set p. \<forall>w\<in>set (windows_all s). Map_get (windowMap s) uuid = Some w \<longrightarrow>
         titlePreface (snd (await_all (unbeaconifyWindows p s) s)) w = ''''"
    by (auto simp: await_all_state title_fold title_written_unbeaconifyWindows)
next
  show "titlePreface (snd (handle ev s)) w = titlePreface s w \<or>
    titlePreface (snd (handle ev s)) w = '''' \<or>
    (\<exists>uuid. Map_get (windowMap (snd (handle ev s))) uuid = Some w \<and>
       titlePreface (snd (handle ev s)) w = uuid @ '' | '')"
  proof (cases ev)
    case Startup
    then show ?thesis using main_title [of s w] by auto
  next
    case (WindowCreated x)
    then show ?thesis using handleWindowCreated_title [of x s w] by auto
  next
    case (HostMessage m)
    then show ?thesis using handleHostMessage_title [of m s w] by auto
  qed
qed

theorem marker_text_witness:
  "snd ` set [(''A'', 1), (''B'', 2)] \<subseteq> set (windows_all three_windows) \<and>
   distinct (map snd [(''A'', 1::nat), (''B'', 2)]) \<and>
   titlePreface (snd (await_all (beaconifyWindows [(''A'', 1), (''B'', 2)]) three_windows)) 2
     = ''B | '' \<and>
   Map_get (windowMap two_windows) ''A'' = Some 1 \<and> 1 \<in> set (windows_all two_windows) \<and>
   titlePreface two_windows 1 = ''A | '' \<and>
   titlePreface (snd (await_all (unbeaconifyWindows [(''A'', ''1'')] two_windows) two_windows)) 1
     = ''''"
proof -
  have h1: "snd ` set [(''A'', 1), (''B'', 2)] \<subseteq> set (windows_all three_windows) \<and>
      distinct (map snd [(''A'', 1::nat), (''B'', 2)])"
    by (simp add: three_windows_def)
  have h2: "\<forall>uuid\<in>fst ` set [(''A'', ''1'')]. Map_get (windowMap two_windows) uuid \<noteq> None"
    by (simp add: two_windows_def Map_get_def)
  have get: "Map_get (windowMap two_windows) ''A'' = Some 1" "1 \<in> set (windows_all two_windows)"
    "titlePreface two_windows 1 = ''A | ''"
    by (simp_all add: two_windows_def Map_get_def)
  have "titlePreface (snd (await_all (beaconifyWindows [(''A'', 1), (''B'', 2)]) three_windows)) 2
      = ''B | ''"
    using marker_text [of "[(''A'', 1), (''B'', 2)]" three_windows, THEN conjunct1] h1 by auto
  moreover have "titlePreface
      (snd (await_all (unbeaconifyWindows [(''A'', ''1'')] two_windows) two_windows)) 1 = ''''"
    using marker_text [of _ two_windows "[(''A'', ''1'')]", THEN conjunct2, THEN conjunct1] h2 get
    by auto
  ultimately show ?thesis using h1 get by simp
qed

subsection \<open>The marker from the request to the response\<close>


lemma main_at_startup:
  "fst (main at_startup) = None"
  "posted (snd (main at_startup)) = [[(''A'', Str ''2''), (''uuid-'', Null)]]"
  "windowMap (snd (main at_startup)) = [(''A'', 1), (''uuid-'', 2)]"
  "windows_all (snd (main at_startup)) = [1, 2]"
  "titlePreface (snd (main at_startup)) 1 = ''A | ''"
  "titlePreface (snd (main at_startup)) 2 = ''uuid- | ''"
  by (simp_all add: main_def makeWindowMap_def Map_new_def updateWindowMap_def post_windows_def
      makeWindowsMessage_def getWindowValue_workspace_def Object_fromEntries_def
      beaconifyWindows_def at_startup_def Let_def)




end
